theory Spec2Isabelle
  imports Main "HOL-Library.Word" "HOL-Library.Log_Nat"
begin

unbundle bit_operations_syntax

section \<open>Harvest Moon DS portrait reconstructor: a shallow embedding of reconstruct_FINAL.py\<close>

text \<open>
  The functions of \<^verbatim>\<open>reconstruct_FINAL.py\<close> are translated one by one. Byte buffers
  (Python \<^verbatim>\<open>bytes\<close>) are lists of 8-bit words. Python integers that the code only ever
  builds from masks and shifts of unsigned values are natural numbers; screen coordinates,
  which the code makes negative, are integers. Every exception the code can raise is a
  value of the type \<open>error\<close>, and a function that can raise returns \<open>error + 'a\<close>.
\<close>

subsection \<open>Errors, byte buffers and struct.unpack\<close>

datatype error =
    StructError   \<comment> \<open>\<^verbatim>\<open>struct.error\<close>: the buffer given to \<^verbatim>\<open>struct.unpack('<H', ...)\<close> is not 2 bytes long\<close>
  | IndexError    \<comment> \<open>list index or pixel coordinate out of range\<close>
  | KeyError      \<comment> \<open>dictionary key missing\<close>
  | ValueError    \<comment> \<open>\<^verbatim>\<open>min()\<close> or \<^verbatim>\<open>max()\<close> of an empty sequence; negative image size\<close>

type_synonym byte = "8 word"

text \<open>Python's slice \<^verbatim>\<open>data[i:j]\<close> for \<open>0 \<le> i \<le> j\<close>: it never raises, it is cut at the end.\<close>

definition py_slice :: "'a list \<Rightarrow> nat \<Rightarrow> nat \<Rightarrow> 'a list" where
  "py_slice xs i j = take (j - i) (drop i xs)"

text \<open>\<^verbatim>\<open>struct.unpack('<H', b)[0]\<close>: a little-endian unsigned 16-bit value from exactly two bytes.\<close>

definition unpack_H :: "byte list \<Rightarrow> error + nat" where
  "unpack_H b = (case b of [lo, hi] \<Rightarrow> Inr (unat lo + 256 * unat hi) | _ \<Rightarrow> Inl StructError)"

text \<open>The 16-bit value whose two bytes stand at offset \<open>k\<close> of a buffer.\<close>

definition u16_at :: "byte list \<Rightarrow> nat \<Rightarrow> nat" where
  "u16_at xs k = unat (xs ! k) + 256 * unat (xs ! (k + 1))"

text \<open>Sequencing of computations that may raise: the first error stops the rest.\<close>

definition bindE :: "error + 'a \<Rightarrow> ('a \<Rightarrow> error + 'b) \<Rightarrow> error + 'b" where
  "bindE m f = (case m of Inl e \<Rightarrow> Inl e | Inr v \<Rightarrow> f v)"

text \<open>A \<^verbatim>\<open>for\<close> loop over a list whose body may raise; the loop state is passed along.\<close>

fun foldE :: "('a \<Rightarrow> 's \<Rightarrow> error + 's) \<Rightarrow> 'a list \<Rightarrow> 's \<Rightarrow> error + 's" where
  "foldE f [] s = Inr s"
| "foldE f (a # as) s = bindE (f a s) (foldE f as)"

subsection \<open>Python floats\<close>

text \<open>
  \<^verbatim>\<open>load_ds_palette\<close> computes \<^verbatim>\<open>int((r / 31.0) * 255)\<close> in binary64 floating point.
  A finite float is modelled by the rational number it denotes. Each arithmetic operation
  is the exact operation followed by rounding to the nearest number with a 53-bit
  significand, ties to the even significand. The exponent range is not bounded here: the
  values this program computes lie in \<open>[1/31, 255]\<close> or are zero, far from overflow and
  from the subnormal numbers.
\<close>

definition pow2 :: "int \<Rightarrow> rat" where
  "pow2 e = (if 0 \<le> e then 2 ^ nat e else 1 / 2 ^ nat (- e))"

text \<open>The binade of a positive rational: the integer \<open>e\<close> with \<open>2^e \<le> x < 2^(e+1)\<close>.\<close>

definition ilog2 :: "rat \<Rightarrow> int" where
  "ilog2 x = (if 1 \<le> x then bitlen \<lfloor>x\<rfloor> - 1 else - bitlen (\<lceil>1 / x\<rceil> - 1))"

definition round_half_even :: "rat \<Rightarrow> int" where
  "round_half_even r =
     (let f = \<lfloor>r\<rfloor>; d = r - of_int f
      in if d < 1 / 2 then f
         else if 1 / 2 < d then f + 1
         else if even f then f else f + 1)"

definition fl_round :: "rat \<Rightarrow> rat" where
  "fl_round x =
     (if x = 0 then 0
      else let a = \<bar>x\<bar>; u = pow2 (ilog2 a - 52)
           in sgn x * of_int (round_half_even (a / u)) * u)"

text \<open>\<^verbatim>\<open>a / b\<close> and \<^verbatim>\<open>a * b\<close> on floats (the divisor in the program is the constant 31.0).\<close>

definition fl_div :: "rat \<Rightarrow> rat \<Rightarrow> rat" where
  "fl_div a b = fl_round (a / b)"

definition fl_mul :: "rat \<Rightarrow> rat \<Rightarrow> rat" where
  "fl_mul a b = fl_round (a * b)"

text \<open>\<^verbatim>\<open>int(x)\<close> on a float truncates towards zero.\<close>

definition py_int :: "rat \<Rightarrow> int" where
  "py_int x = (if 0 \<le> x then \<lfloor>x\<rfloor> else \<lceil>x\<rceil>)"

subsection \<open>load_ds_palette\<close>

type_synonym color = "nat \<times> nat \<times> nat"

text \<open>Lines 19-21: \<^verbatim>\<open>int((c / 31.0) * 255)\<close>; the integers \<open>c\<close> and 255 convert to floats exactly.\<close>

definition to_8bit :: "nat \<Rightarrow> nat" where
  "to_8bit c = nat (py_int (fl_mul (fl_div (of_nat c) 31) 255))"

text \<open>The body of the loop, lines 11-23, for the two-byte slice at offset \<open>i\<close>.\<close>

definition palette_entry :: "byte list \<Rightarrow> nat \<Rightarrow> error + color" where
  "palette_entry data i =
     bindE (unpack_H (py_slice data i (i + 2))) (\<lambda>color16.
       let r = color16 AND 0x001F;
           g = drop_bit 5 (color16 AND 0x03E0);
           b = drop_bit 10 (color16 AND 0x7C00)
       in Inr (to_8bit r, to_8bit g, to_8bit b))"

text \<open>
  \<^verbatim>\<open>for i in range(0, len(data), 2)\<close>: the loop variable and the palette built so far.
  The loop ends when \<open>i\<close> reaches the length; an error in the body ends it at once.
\<close>

function load_ds_palette_loop :: "byte list \<Rightarrow> nat \<Rightarrow> color list \<Rightarrow> error + color list" where
  "load_ds_palette_loop data i palette =
     (if i < length data
      then bindE (palette_entry data i)
             (\<lambda>c. load_ds_palette_loop data (i + 2) (palette @ [c]))
      else Inr palette)"
  by pat_completeness auto
termination
  by (relation "measure (\<lambda>(data, i, palette). length data - i)") auto

definition load_ds_palette :: "byte list \<Rightarrow> error + color list" where
  "load_ds_palette data = load_ds_palette_loop data 0 []"

subsection \<open>decode_4bpp_tile\<close>

text \<open>Lines 29-34: two pixels for each byte, the low nibble first.\<close>

fun tile_pixels :: "byte list \<Rightarrow> nat list" where
  "tile_pixels [] = []"
| "tile_pixels (byte # rest) =
     unat (byte AND 0x0F) # unat (drop_bit 4 byte AND 0x0F) # tile_pixels rest"

text \<open>\<^verbatim>\<open>pixels[k]\<close> for \<open>k \<ge> 0\<close>: IndexError beyond the end of the list.\<close>

definition list_get :: "'a list \<Rightarrow> nat \<Rightarrow> error + 'a" where
  "list_get xs k = (if k < length xs then Inr (xs ! k) else Inl IndexError)"

text \<open>Lines 37-42: the rows of the 8x8 grid, each built by appending \<^verbatim>\<open>pixels[y * 8 + x]\<close>.\<close>

definition tile_row :: "nat list \<Rightarrow> nat \<Rightarrow> error + nat list" where
  "tile_row pixels y =
     foldE (\<lambda>x row. bindE (list_get pixels (y * 8 + x)) (\<lambda>p. Inr (row @ [p]))) [0..<8] []"

definition decode_4bpp_tile :: "byte list \<Rightarrow> error + nat list list" where
  "decode_4bpp_tile tile_bytes =
     (let pixels = tile_pixels tile_bytes
      in foldE (\<lambda>y tile. bindE (tile_row pixels y) (\<lambda>row. Inr (tile @ [row]))) [0..<8] [])"

subsection \<open>wrap_ds_coordinate and parse_oam_attrs\<close>

definition wrap_ds_coordinate :: "int \<Rightarrow> int \<Rightarrow> int \<times> int" where
  "wrap_ds_coordinate x y =
     (let y = (if 192 \<le> y then y - 256 else y);
          x = (if 256 \<le> x then x - 512 else x)
      in (x, y))"

text \<open>
  The dictionary returned by \<^verbatim>\<open>parse_oam_attrs\<close>. The keys \<^verbatim>\<open>'x'\<close>, \<^verbatim>\<open>'y'\<close>,
  \<^verbatim>\<open>'size'\<close>, \<^verbatim>\<open>'shape'\<close> carry the names of the local variables that fill them. The keys
  \<^verbatim>\<open>'set'\<close> and \<^verbatim>\<open>'index'\<close> are absent until \<^verbatim>\<open>parse_custom_oam_format\<close> adds them.
\<close>

record sprite_obj =
  y_coord :: int
  rot_scaling :: nat
  double_size :: nat
  obj_disable :: nat
  obj_mode :: nat
  mosaic :: nat
  colors_palettes :: nat
  obj_shape :: nat
  x_coord :: int
  rot_scaling_param :: nat
  h_flip :: nat
  v_flip :: nat
  obj_size :: nat
  tile_number :: nat
  priority :: nat
  palette_number :: nat
  width :: nat
  height :: nat
  obj_set :: "nat option"
  obj_index :: "nat option"

text \<open>The nested dictionary \<^verbatim>\<open>SIZE_TABLE\<close>, lines 103-112.\<close>

definition SIZE_TABLE :: "nat \<rightharpoonup> (nat \<rightharpoonup> nat \<times> nat)" where
  "SIZE_TABLE = map_of
     [(0, map_of [(0, (8, 8)), (1, (16, 16)), (2, (32, 32)), (3, (64, 64))]),
      (1, map_of [(0, (16, 8)), (1, (32, 8)), (2, (32, 16)), (3, (64, 32))]),
      (2, map_of [(0, (8, 16)), (1, (8, 32)), (2, (16, 32)), (3, (32, 64))]),
      (3, map_of [(0, (8, 8)), (1, (8, 8)), (2, (8, 8)), (3, (8, 8))])]"

definition dict_get :: "('k \<rightharpoonup> 'v) \<Rightarrow> 'k \<Rightarrow> error + 'v" where
  "dict_get d k = (case d k of None \<Rightarrow> Inl KeyError | Some v \<Rightarrow> Inr v)"

definition parse_oam_attrs :: "nat \<Rightarrow> nat \<Rightarrow> nat \<Rightarrow> error + sprite_obj" where
  "parse_oam_attrs attr0 attr1 attr2 =
     (let y_raw = attr0 AND 0xFF;
          rot = drop_bit 8 attr0 AND 0x1;
          dbl = (if rot \<noteq> 0 then drop_bit 9 attr0 AND 0x1 else 0);
          dis = (if rot \<noteq> 0 then 0 else drop_bit 9 attr0 AND 0x1);
          mode = drop_bit 10 attr0 AND 0x3;
          mos = drop_bit 12 attr0 AND 0x1;
          colpal = drop_bit 13 attr0 AND 0x1;
          shp = drop_bit 14 attr0 AND 0x3;
          x_raw = attr1 AND 0x1FF;
          rot_param = (if rot \<noteq> 0 then drop_bit 9 attr1 AND 0x1F else 0);
          hf = (if rot \<noteq> 0 then 0 else drop_bit 12 attr1 AND 0x1);
          vf = (if rot \<noteq> 0 then 0 else drop_bit 13 attr1 AND 0x1);
          sz = drop_bit 14 attr1 AND 0x3;
          tile_index = attr2 AND 0x3FF;
          prio = drop_bit 10 attr2 AND 0x3;
          palette_num = drop_bit 12 attr2 AND 0xF
      in bindE (dict_get SIZE_TABLE shp) (\<lambda>by_size.
         bindE (dict_get by_size sz) (\<lambda>(w, h).
         let (xw, yw) = wrap_ds_coordinate (int x_raw) (int y_raw)
         in Inr \<lparr> y_coord = yw, rot_scaling = rot, double_size = dbl, obj_disable = dis,
                  obj_mode = mode, mosaic = mos, colors_palettes = colpal, obj_shape = shp,
                  x_coord = xw, rot_scaling_param = rot_param, h_flip = hf, v_flip = vf,
                  obj_size = sz, tile_number = tile_index, priority = prio,
                  palette_number = palette_num, width = w, height = h,
                  obj_set = None, obj_index = None \<rparr>)))"

subsection \<open>Images\<close>

text \<open>
  A Pillow image in mode RGBA: its size and its pixels, row by row. A pixel is the tuple
  \<open>(r, g, b, a)\<close>.
\<close>

type_synonym rgba = "nat \<times> nat \<times> nat \<times> nat"

record image =
  im_w :: nat
  im_h :: nat
  im_rows :: "rgba list list"

definition alpha :: "rgba \<Rightarrow> nat" where
  "alpha c = (case c of (r, g, b, a) \<Rightarrow> a)"

text \<open>\<^verbatim>\<open>Image.new('RGBA', (w, h), c)\<close> for a size that is not negative.\<close>

definition Image_new :: "nat \<Rightarrow> nat \<Rightarrow> rgba \<Rightarrow> image" where
  "Image_new w h c = \<lparr> im_w = w, im_h = h, im_rows = replicate h (replicate w c) \<rparr>"

definition getpixel :: "image \<Rightarrow> nat \<Rightarrow> nat \<Rightarrow> rgba" where
  "getpixel img x y = im_rows img ! y ! x"

text \<open>
  \<^verbatim>\<open>img.putpixel((x, y), c)\<close>: Pillow counts a negative coordinate from the far edge
  and raises IndexError for a coordinate outside the image.
\<close>

definition putpixel :: "image \<Rightarrow> int \<times> int \<Rightarrow> rgba \<Rightarrow> error + image" where
  "putpixel img xy c =
     (case xy of (x, y) \<Rightarrow>
        let x = (if x < 0 then int (im_w img) + x else x);
            y = (if y < 0 then int (im_h img) + y else y)
        in if x < 0 \<or> int (im_w img) \<le> x \<or> y < 0 \<or> int (im_h img) \<le> y
           then Inl IndexError
           else Inr (img\<lparr> im_rows :=
                  (im_rows img)[nat y := (im_rows img ! nat y)[nat x := c]] \<rparr>))"

text \<open>
  \<^verbatim>\<open>canvas.paste(sprite, (bx, by), sprite)\<close>: the sprite is its own mask. Pillow copies
  the source pixel where the mask's alpha is 255, keeps the destination where it is 0,
  and ignores the part of the sprite that lies outside the canvas. It mixes the two for
  an alpha in between; the sprites of this program have no such pixel (every pixel of a
  rendered sprite has alpha 0 or 255, lemma \<open>render_sprite_alpha\<close>), so that case is
  modelled like alpha 0.
\<close>

definition paste :: "image \<Rightarrow> image \<Rightarrow> int \<times> int \<Rightarrow> image" where
  "paste canvas sprite box =
     (case box of (bx, by) \<Rightarrow>
        canvas\<lparr> im_rows :=
          map (\<lambda>cy. map (\<lambda>cx.
                 let sx = int cx - bx; sy = int cy - by
                 in if 0 \<le> sx \<and> sx < int (im_w sprite) \<and> 0 \<le> sy \<and> sy < int (im_h sprite)
                       \<and> alpha (getpixel sprite (nat sx) (nat sy)) = 255
                    then getpixel sprite (nat sx) (nat sy)
                    else getpixel canvas cx cy)
               [0..<im_w canvas])
            [0..<im_h canvas] \<rparr>)"

subsection \<open>render_sprite\<close>

text \<open>The body of the innermost loops, lines 194-216, for the pixel \<open>(px, py)\<close> of a tile.\<close>

definition render_pixel ::
  "nat \<Rightarrow> nat \<Rightarrow> nat \<Rightarrow> nat \<Rightarrow> color list \<Rightarrow> bool \<Rightarrow> nat list list \<Rightarrow> nat \<Rightarrow> nat \<Rightarrow>
   nat \<Rightarrow> nat \<Rightarrow> image \<Rightarrow> error + image" where
  "render_pixel wd ht hflip vflip palette show_transparent tile tile_x tile_y py px img =
     bindE (list_get tile py) (\<lambda>row.
     bindE (list_get row px) (\<lambda>palette_idx.
       if \<not> show_transparent \<and> palette_idx = 0 then Inr img
       else if length palette \<le> palette_idx then Inr img
       else
         let color_rgba = (case palette ! palette_idx of (r, g, b) \<Rightarrow> (r, g, b, 255));
             pixel_x = int tile_x + int px;
             pixel_y = int tile_y + int py;
             pixel_x = (if hflip \<noteq> 0 then (int wd - 1) - pixel_x else pixel_x);
             pixel_y = (if vflip \<noteq> 0 then (int ht - 1) - pixel_y else pixel_y)
         in putpixel img (pixel_x, pixel_y) color_rgba))"

text \<open>
  The body of the loop over the tile cells, lines 177-218. The loop state is the image
  and the counter \<^verbatim>\<open>tile_num\<close>; a cell beyond the tile buffer only advances the counter.
\<close>

definition render_tile ::
  "byte list \<Rightarrow> nat \<Rightarrow> nat \<Rightarrow> nat \<Rightarrow> nat \<Rightarrow> color list \<Rightarrow> bool \<Rightarrow> nat \<Rightarrow> nat \<Rightarrow> nat \<Rightarrow>
   image \<times> nat \<Rightarrow> error + image \<times> nat" where
  "render_tile tile_data wd ht hflip vflip palette show_transparent actual_start_tile ty tx st =
     (case st of (img, tile_num) \<Rightarrow>
        let current_tile_idx = actual_start_tile + tile_num;
            tile_offset = current_tile_idx * 32
        in if length tile_data < tile_offset + 32 then Inr (img, tile_num + 1)
           else
             bindE (decode_4bpp_tile (py_slice tile_data tile_offset (tile_offset + 32))) (\<lambda>tile.
             let tile_x = tx * 8; tile_y = ty * 8
             in bindE (foldE (\<lambda>py. foldE (\<lambda>px.
                         render_pixel wd ht hflip vflip palette show_transparent tile
                           tile_x tile_y py px) [0..<8]) [0..<8] img)
                  (\<lambda>img. Inr (img, tile_num + 1))))"

definition render_sprite ::
  "byte list \<Rightarrow> sprite_obj \<Rightarrow> color list \<Rightarrow> nat \<Rightarrow> bool \<Rightarrow> error + image" where
  "render_sprite tile_data obj palette tile_multiplier show_transparent =
     (let wd = width obj; ht = height obj; tile_idx = tile_number obj;
          hflip = h_flip obj; vflip = v_flip obj;
          tiles_wide = wd div 8; tiles_tall = ht div 8;
          actual_start_tile = tile_idx * tile_multiplier;
          img = (if show_transparent then Image_new wd ht (255, 255, 255, 255)
                 else Image_new wd ht (0, 0, 0, 0))
      in bindE (foldE (\<lambda>ty. foldE (\<lambda>tx.
                  render_tile tile_data wd ht hflip vflip palette show_transparent
                    actual_start_tile ty tx) [0..<tiles_wide]) [0..<tiles_tall] (img, 0))
           (\<lambda>(img, tile_num). Inr img))"

subsection \<open>parse_custom_oam_format\<close>

record oam_header =
  total_size :: nat
  byte_2_3 :: nat
  multiplier :: nat
  set2_offset_adjust :: nat
  set1_count :: nat

text \<open>
  The two record loops, lines 247-260 and 267-280, differ only in the set number they
  store. The loop state is the index \<open>i\<close>, the offset and the list built so far;
  \<^verbatim>\<open>break\<close> leaves the loop with the state unchanged.
\<close>

function parse_set ::
  "byte list \<Rightarrow> nat \<Rightarrow> nat \<Rightarrow> nat \<Rightarrow> nat \<Rightarrow> sprite_obj list \<Rightarrow> error + sprite_obj list \<times> nat" where
  "parse_set oam_data set_no count i offset objects =
     (if i < count
      then if length oam_data < offset + 6 then Inr (objects, offset)
           else
             bindE (unpack_H (py_slice oam_data offset (offset + 2))) (\<lambda>attr0.
             bindE (unpack_H (py_slice oam_data (offset + 2) (offset + 4))) (\<lambda>attr1.
             bindE (unpack_H (py_slice oam_data (offset + 4) (offset + 6))) (\<lambda>attr2.
             bindE (parse_oam_attrs attr0 attr1 attr2) (\<lambda>obj.
               parse_set oam_data set_no count (i + 1) (offset + 6)
                 (objects @ [obj\<lparr> obj_set := Some set_no, obj_index := Some i \<rparr>])))))
      else Inr (objects, offset))"
  by pat_completeness auto
termination
  by (relation "measure (\<lambda>(oam_data, set_no, count, i, offset, objects). count - i)") auto

definition parse_custom_oam_format ::
  "byte list \<Rightarrow> error + oam_header \<times> sprite_obj list \<times> sprite_obj list" where
  "parse_custom_oam_format oam_data =
     bindE (unpack_H (py_slice oam_data 0 2)) (\<lambda>f0.
     bindE (unpack_H (py_slice oam_data 2 4)) (\<lambda>f1.
     bindE (unpack_H (py_slice oam_data 4 6)) (\<lambda>f2.
     bindE (unpack_H (py_slice oam_data 6 8)) (\<lambda>f3.
     bindE (unpack_H (py_slice oam_data 8 10)) (\<lambda>f4.
       let header = \<lparr> total_size = f0, byte_2_3 = f1, multiplier = f2,
                       set2_offset_adjust = f3, set1_count = f4 \<rparr>
       in bindE (parse_set oam_data 1 (set1_count header) 0 10 []) (\<lambda>(set1_objects, offset).
            if offset + 2 \<le> length oam_data
            then bindE (unpack_H (py_slice oam_data offset (offset + 2))) (\<lambda>set2_count.
                 bindE (parse_set oam_data 2 set2_count 0 (offset + 2) [])
                   (\<lambda>(set2_objects, offset). Inr (header, set1_objects, set2_objects)))
            else Inr (header, set1_objects, [])))))))"

subsection \<open>reconstruct_portrait\<close>

text \<open>\<^verbatim>\<open>min(...)\<close> and \<^verbatim>\<open>max(...)\<close> of a sequence: ValueError when it is empty.\<close>

definition py_min :: "int list \<Rightarrow> error + int" where
  "py_min xs = (case xs of [] \<Rightarrow> Inl ValueError | x # rest \<Rightarrow> Inr (fold min rest x))"

definition py_max :: "int list \<Rightarrow> error + int" where
  "py_max xs = (case xs of [] \<Rightarrow> Inl ValueError | x # rest \<Rightarrow> Inr (fold max rest x))"

text \<open>The body of the loop over the objects, lines 341-358 (the printing left out).\<close>

definition paint_object ::
  "byte list \<Rightarrow> color list list \<Rightarrow> nat \<Rightarrow> bool \<Rightarrow> int \<Rightarrow> int \<Rightarrow> sprite_obj \<Rightarrow> image \<Rightarrow>
   error + image" where
  "paint_object tile_data palettes mult show_transparent min_x min_y obj canvas =
     (if obj_disable obj \<noteq> 0 then Inr canvas
      else
        let pal_idx = palette_number obj;
            pal_idx = (if length palettes \<le> pal_idx then 0 else pal_idx)
        in bindE (list_get palettes pal_idx) (\<lambda>palette.
           bindE (render_sprite tile_data obj palette mult show_transparent) (\<lambda>sprite.
             let paste_x = x_coord obj - min_x; paste_y = y_coord obj - min_y
             in Inr (paste canvas sprite (paste_x, paste_y)))))"

text \<open>
  Lines 321-358: the bounds, the canvas and the loop over \<^verbatim>\<open>reversed(objects)\<close>.
  \<^verbatim>\<open>Image.new\<close> raises ValueError for a negative size.
\<close>

definition composite ::
  "byte list \<Rightarrow> color list list \<Rightarrow> nat \<Rightarrow> bool \<Rightarrow> sprite_obj list \<Rightarrow> error + image" where
  "composite tile_data palettes mult show_transparent objects =
     bindE (py_min (map x_coord objects)) (\<lambda>min_x.
     bindE (py_max (map (\<lambda>obj. x_coord obj + int (width obj)) objects)) (\<lambda>max_x.
     bindE (py_min (map y_coord objects)) (\<lambda>min_y.
     bindE (py_max (map (\<lambda>obj. y_coord obj + int (height obj)) objects)) (\<lambda>max_y.
       let wd = max_x - min_x; ht = max_y - min_y
       in if wd < 0 \<or> ht < 0 then Inl ValueError
          else foldE (paint_object tile_data palettes mult show_transparent min_x min_y)
                 (rev objects) (Image_new (nat wd) (nat ht) (0, 0, 0, 0))))))"

text \<open>
  The whole function on the contents of the four files. The parameter \<open>debug\<close> only
  switches the printing, which is not modelled; the saved image is the result.
\<close>

definition reconstruct_portrait ::
  "byte list \<Rightarrow> byte list \<Rightarrow> byte list \<Rightarrow> byte list \<Rightarrow> nat \<Rightarrow> bool \<Rightarrow> bool \<Rightarrow> error + image" where
  "reconstruct_portrait tile_data oam_data palette1_data palette2_data use_set debug
     show_transparent =
     bindE (load_ds_palette palette1_data) (\<lambda>palette1.
     bindE (load_ds_palette palette2_data) (\<lambda>palette2.
     let palettes = [palette1, palette2]
     in bindE (parse_custom_oam_format oam_data) (\<lambda>(header, set1_objects, set2_objects).
          let objects = (if use_set = 1 then set1_objects else set2_objects)
          in composite tile_data palettes (multiplier header) show_transparent objects)))"

subsection \<open>Notions used to state and prove the properties\<close>

text \<open>An image whose rows agree with its size.\<close>

definition wf_image :: "image \<Rightarrow> bool" where
  "wf_image img \<longleftrightarrow>
     length (im_rows img) = im_h img \<and> list_all (\<lambda>row. length row = im_w img) (im_rows img)"

text \<open>The colour a sprite image starts with, lines 168-172.\<close>

definition background :: "bool \<Rightarrow> rgba" where
  "background show_transparent =
     (if show_transparent then (255, 255, 255, 255) else (0, 0, 0, 0))"

text \<open>The reflection of lines 211-214, on coordinates inside the sprite.\<close>

definition flip :: "nat \<Rightarrow> nat \<Rightarrow> nat \<Rightarrow> nat" where
  "flip flag extent v = (if flag \<noteq> 0 then extent - 1 - v else v)"

text \<open>
  What the renderer is expected to write for the pixel \<open>(px, py)\<close> of a cell whose
  source tile has the index \<open>tile_index\<close>, read off the tile buffer directly: nothing
  when the tile lies beyond the buffer, when the palette index is 0 and index 0 is not
  shown, or when the palette has no such entry; the opaque palette colour otherwise.
\<close>

definition cell_pixel :: "byte list \<Rightarrow> color list \<Rightarrow> bool \<Rightarrow> nat \<Rightarrow> nat \<Rightarrow> nat \<Rightarrow> rgba option" where
  "cell_pixel tile_data palette show_transparent tile_index py px =
     (if length tile_data < tile_index * 32 + 32 then None
      else
        let k = py * 8 + px;
            byte = unat (tile_data ! (tile_index * 32 + k div 2));
            idx = (if even k then byte mod 16 else byte div 16)
        in if (\<not> show_transparent \<and> idx = 0) \<or> length palette \<le> idx then None
           else case palette ! idx of (r, g, b) \<Rightarrow> Some (r, g, b, 255))"

text \<open>
  The effect of a piece of code on an image, as the partial map of the pixels it
  writes: the size stays, a pixel in the map has the mapped colour afterwards, every
  other pixel keeps its colour.
\<close>

definition writes :: "image \<Rightarrow> image \<Rightarrow> (nat \<times> nat \<rightharpoonup> rgba) \<Rightarrow> bool" where
  "writes img img' m \<longleftrightarrow>
     wf_image img' \<and> im_w img' = im_w img \<and> im_h img' = im_h img \<and>
     (\<forall>x y. x < im_w img \<and> y < im_h img \<longrightarrow>
        getpixel img' x y = (case m (x, y) of None \<Rightarrow> getpixel img x y | Some c \<Rightarrow> c))"

text \<open>The writes of a loop: those of its iterations in order, a later one over an earlier one.\<close>

definition writes_of :: "('a \<Rightarrow> (nat \<times> nat \<rightharpoonup> rgba)) \<Rightarrow> 'a list \<Rightarrow> (nat \<times> nat \<rightharpoonup> rgba)" where
  "writes_of g as = fold (\<lambda>a m. m ++ g a) as Map.empty"

text \<open>
  The write expected of the renderer for the pixel \<open>(px, py)\<close> of the cell in column
  \<open>tx\<close> of row \<open>ty\<close>: the cell's source tile is the one numbered from the object's
  first tile in row-major order, and the pixel lands at the cell's place in the sprite,
  reflected about the sprite's own size when a flip is set.
\<close>

definition sprite_writes ::
  "byte list \<Rightarrow> sprite_obj \<Rightarrow> color list \<Rightarrow> nat \<Rightarrow> bool \<Rightarrow> nat \<Rightarrow> nat \<Rightarrow> nat \<Rightarrow> nat \<Rightarrow>
   (nat \<times> nat \<rightharpoonup> rgba)" where
  "sprite_writes tile_data obj palette mult show_transparent ty tx py px =
     (case cell_pixel tile_data palette show_transparent
             (tile_number obj * mult + (ty * (width obj div 8) + tx)) py px of
        None \<Rightarrow> Map.empty
      | Some c \<Rightarrow>
          [(flip (h_flip obj) (width obj) (tx * 8 + px),
            flip (v_flip obj) (height obj) (ty * 8 + py)) \<mapsto> c])"

text \<open>
  The sprite the compositor renders for an object, lines 347-353: the palette is the one
  numbered by the object, or palette 0 when there is no palette with that number.
\<close>

definition object_sprite ::
  "byte list \<Rightarrow> color list list \<Rightarrow> nat \<Rightarrow> bool \<Rightarrow> sprite_obj \<Rightarrow> error + image" where
  "object_sprite tile_data palettes mult show_transparent obj =
     render_sprite tile_data obj
       (palettes ! (if length palettes \<le> palette_number obj then 0 else palette_number obj))
       mult show_transparent"

section \<open>Properties\<close>

subsection \<open>The float model\<close>

lemma pow2_pos: "0 < pow2 e"
  by (simp add: pow2_def)

lemma bitlen_eqI:
  assumes "2 ^ k \<le> m" "m < 2 ^ Suc k"
  shows "bitlen m = int k + 1"
proof -
  have "(0::int) < 2 ^ k" by simp
  then have m0: "0 < m" using assms(1) by linarith
  have a: "(2::nat) ^ k \<le> nat m" using assms(1) m0
    by (metis le_nat_iff of_nat_numeral of_nat_power order_less_imp_le)
  have b: "nat m < 2 ^ Suc k" using assms(2) m0
    by (metis nat_less_iff of_nat_numeral of_nat_power order_less_imp_le)
  have "floorlog 2 (nat m) \<le> Suc k" using b by (simp add: floorlog_le_iff)
  moreover have "Suc k \<le> floorlog 2 (nat m)" using a by (intro floorlog_geI) auto
  ultimately show ?thesis by (simp add: bitlen_def)
qed

lemma ilog2_unique:
  assumes "pow2 e \<le> x" "x < pow2 (e + 1)"
  shows "ilog2 x = e"
proof (cases "1 \<le> x")
  case True
  have e0: "0 \<le> e"
  proof (rule ccontr)
    assume "\<not> 0 \<le> e"
    then have "pow2 (e + 1) \<le> 1" by (auto simp: pow2_def field_simps)
    with assms True show False by simp
  qed
  define k where "k = nat e"
  have ek: "e = int k" using e0 by (simp add: k_def)
  have lo: "(2::rat) ^ k \<le> x" using assms(1) by (simp add: pow2_def ek)
  have hi: "x < (2::rat) ^ Suc k" using assms(2) by (simp add: pow2_def ek nat_add_distrib)
  have "of_int (2 ^ k) \<le> x" using lo by simp
  then have 1: "2 ^ k \<le> \<lfloor>x\<rfloor>" by (simp only: le_floor_iff)
  have "x < of_int (2 ^ Suc k)" using hi by simp
  then have 2: "\<lfloor>x\<rfloor> < 2 ^ Suc k" by (simp only: floor_less_iff)
  show ?thesis using True bitlen_eqI[OF 1 2] by (simp add: ilog2_def ek)
next
  case False
  have x0: "0 < x" using assms(1) pow2_pos[of e] by linarith
  have e0: "e < 0"
  proof (rule ccontr)
    assume "\<not> e < 0"
    then have "1 \<le> pow2 e" by (auto simp: pow2_def)
    with assms False show False by simp
  qed
  define k where "k = nat (- e - 1)"
  have ek: "e = - int k - 1" using e0 by (simp add: k_def)
  have lo: "1 / 2 ^ Suc k \<le> x" using assms(1) e0 by (simp add: pow2_def ek nat_add_distrib)
  have hi: "x < 1 / 2 ^ k" using assms(2) by (cases "k = 0") (simp_all add: pow2_def ek)
  have r1: "1 / x \<le> 2 ^ Suc k" using lo x0 by (simp add: field_simps)
  have r2: "2 ^ k < 1 / x" using hi x0 by (simp add: field_simps)
  have "1 / x \<le> of_int (2 ^ Suc k)" using r1 by simp
  then have "\<lceil>1 / x\<rceil> \<le> 2 ^ Suc k" by (simp only: ceiling_le_iff)
  then have 2: "\<lceil>1 / x\<rceil> - 1 < 2 ^ Suc k" by simp
  have "of_int (2 ^ k) < 1 / x" using r2 by simp
  then have "2 ^ k < \<lceil>1 / x\<rceil>" by (simp only: less_ceiling_iff)
  then have 1: "2 ^ k \<le> \<lceil>1 / x\<rceil> - 1" by simp
  show ?thesis using False bitlen_eqI[OF 1 2] by (simp add: ilog2_def ek)
qed


lemma fl_round_binade:
  assumes "pow2 e \<le> x" "x < pow2 (e + 1)"
  shows "fl_round x = of_int (round_half_even (x / pow2 (e - 52))) * pow2 (e - 52)"
proof -
  have x0: "0 < x" using assms(1) pow2_pos[of e] by linarith
  then show ?thesis using ilog2_unique[OF assms] by (simp add: fl_round_def Let_def)
qed


lemma pow2_Suc: "pow2 (e + 1) = 2 * pow2 e"
proof (cases "0 \<le> e")
  case True
  then show ?thesis by (simp add: pow2_def nat_add_distrib)
next
  case False
  then have "nat (- e) = Suc (nat (- (e + 1)))" by simp
  then show ?thesis using False by (auto simp add: pow2_def)
qed

lemma pow2_add: "pow2 (e + int n) = 2 ^ n * pow2 e"
proof (induction n)
  case 0
  then show ?case by simp
next
  case (Suc n)
  have "e + int (Suc n) = (e + int n) + 1" by simp
  then have "pow2 (e + int (Suc n)) = pow2 ((e + int n) + 1)" by (simp only:)
  then show ?case using Suc by (simp add: pow2_Suc)
qed

lemma ilog2_bounds:
  assumes "0 < x"
  shows "pow2 (ilog2 x) \<le> x \<and> x < pow2 (ilog2 x + 1)"
proof (cases "1 \<le> x")
  case True
  define n where "n = \<lfloor>x\<rfloor>"
  have n1: "1 \<le> n" using True by (simp add: n_def le_floor_iff)
  then have n0: "0 < n" by simp
  from bitlen_bounds[OF n0] have b: "2 ^ nat (bitlen n - 1) \<le> n" "n < 2 ^ nat (bitlen n)"
    by auto
  have b1: "1 \<le> bitlen n" using n0 bitlen_eq_zero_iff[of n] bitlen_nonneg[of n] by linarith
  have "rat_of_int (2 ^ nat (bitlen n - 1)) \<le> of_int n" using b(1) by (simp only: of_int_le_iff)
  also have "\<dots> \<le> x" by (simp add: n_def)
  finally have lo: "2 ^ nat (bitlen n - 1) \<le> x" by simp
  have "n + 1 \<le> 2 ^ nat (bitlen n)" using b(2) by simp
  then have "rat_of_int (n + 1) \<le> of_int (2 ^ nat (bitlen n))" by (simp only: of_int_le_iff)
  moreover have "x < of_int (n + 1)" unfolding n_def by linarith
  ultimately have hi: "x < 2 ^ nat (bitlen n)" by simp
  show ?thesis using True lo hi b1 by (simp add: ilog2_def pow2_def n_def)
next
  case False
  define r where "r = 1 / x"
  define m where "m = \<lceil>r\<rceil> - 1"
  have r1: "1 < r" using False assms by (simp add: r_def)
  have m1: "1 \<le> m" using r1 by (simp add: m_def less_ceiling_iff)
  then have m0: "0 < m" by simp
  have mr: "of_int m < r" "r \<le> of_int m + 1" unfolding m_def by linarith+
  from bitlen_bounds[OF m0] have b: "2 ^ nat (bitlen m - 1) \<le> m" "m < 2 ^ nat (bitlen m)"
    by auto
  have b1: "1 \<le> bitlen m" using m0 bitlen_eq_zero_iff[of m] bitlen_nonneg[of m] by linarith
  have "rat_of_int (2 ^ nat (bitlen m - 1)) \<le> of_int m" using b(1) by (simp only: of_int_le_iff)
  then have "2 ^ nat (bitlen m - 1) \<le> rat_of_int m" by simp
  then have lo: "2 ^ nat (bitlen m - 1) < r" using mr(1) by linarith
  have "m + 1 \<le> 2 ^ nat (bitlen m)" using b(2) by simp
  then have "rat_of_int (m + 1) \<le> of_int (2 ^ nat (bitlen m))" by (simp only: of_int_le_iff)
  then have "rat_of_int m + 1 \<le> 2 ^ nat (bitlen m)" by simp
  then have hi: "r \<le> 2 ^ nat (bitlen m)" using mr(2) by linarith
  have x_lo: "1 / 2 ^ nat (bitlen m) \<le> x" using hi assms by (simp add: r_def field_simps)
  have x_hi: "x < 1 / 2 ^ nat (bitlen m - 1)" using lo assms by (simp add: r_def field_simps)
  have e: "ilog2 x = - bitlen m" using False by (simp add: ilog2_def m_def r_def)
  have "pow2 (- bitlen m) = 1 / 2 ^ nat (bitlen m)" using b1 by (simp add: pow2_def)
  moreover have "pow2 (- bitlen m + 1) = 1 / 2 ^ nat (bitlen m - 1)"
    using b1 by (cases "bitlen m = 1") (simp_all add: pow2_def)
  ultimately show ?thesis using x_lo x_hi e by simp
qed

lemma round_half_even_near: "\<bar>of_int (round_half_even r) - r\<bar> \<le> 1 / 2"
proof -
  define f where "f = \<lfloor>r\<rfloor>"
  have "of_int f \<le> r" "r < of_int f + 1" unfolding f_def by linarith+
  then show ?thesis unfolding round_half_even_def Let_def f_def[symmetric]
    by (simp add: abs_if)
qed

lemma round_half_even_of_int: "round_half_even (of_int n) = n"
  by (simp add: round_half_even_def)

lemma fl_round_error:
  assumes "0 < x"
  shows "\<bar>fl_round x - x\<bar> \<le> x / 2 ^ 53"
proof -
  define e where "e = ilog2 x"
  define u where "u = pow2 (e - 52)"
  have u0: "0 < u" by (simp add: u_def pow2_pos)
  have pe: "pow2 e = 2 ^ 52 * u"
  proof -
    have "pow2 (e - 52 + int 52) = 2 ^ 52 * pow2 (e - 52)"
      by (rule pow2_add)
    then show ?thesis by (simp add: u_def)
  qed
  have xe: "pow2 e \<le> x" using ilog2_bounds[OF assms] by (simp add: e_def)
  have fr: "fl_round x = of_int (round_half_even (x / u)) * u"
    using assms by (simp add: fl_round_def Let_def e_def u_def)
  have "\<bar>fl_round x - x\<bar> = \<bar>of_int (round_half_even (x / u)) - x / u\<bar> * u"
  proof -
    have "fl_round x - x = (of_int (round_half_even (x / u)) - x / u) * u"
      using u0 by (simp add: fr left_diff_distrib)
    then show ?thesis using u0 by (simp add: abs_mult)
  qed
  also have "\<dots> \<le> 1 / 2 * u" using round_half_even_near[of "x / u"] u0
    by (intro mult_right_mono) auto
  also have "\<dots> = pow2 e / 2 ^ 53" by (simp add: pe)
  also have "\<dots> \<le> x / 2 ^ 53" using xe by (simp add: divide_right_mono)
  finally show ?thesis .
qed


lemma fl_round_0 [simp]: "fl_round 0 = 0"
  by (simp add: fl_round_def)

lemma fl_round_exact:
  assumes "pow2 e \<le> of_int n * pow2 (e - 52)" "of_int n * pow2 (e - 52) < pow2 (e + 1)"
  shows "fl_round (of_int n * pow2 (e - 52)) = of_int n * pow2 (e - 52)"
  using fl_round_binade[OF assms] pow2_pos[of "e - 52"]
  by (simp add: round_half_even_of_int)

lemma fl_round_1: "fl_round 1 = 1"
  using fl_round_exact[of 0 "2 ^ 52"] by (simp add: pow2_def)

lemma fl_round_255: "fl_round 255 = 255"
  using fl_round_exact[of 7 "255 * 2 ^ 45"] by (simp add: pow2_def)

lemma to_8bit_31: "to_8bit 31 = 255"
  by (simp add: to_8bit_def fl_div_def fl_mul_def fl_round_1 fl_round_255 py_int_def)

lemma to_8bit_0: "to_8bit 0 = 0"
  by (simp add: to_8bit_def fl_div_def fl_mul_def py_int_def)


lemma mod31_pos:
  fixes c :: nat
  assumes "0 < c" "c < 31"
  shows "1 \<le> (c * 255) mod 31"
proof (rule ccontr)
  assume "\<not> 1 \<le> (c * 255) mod 31"
  then have "31 dvd c * 255" by (simp add: dvd_eq_mod_eq_0)
  then have "31 dvd 9 * (c * 255)" by (rule dvd_mult)
  moreover have "31 dvd 31 * (74 * c)" by (rule dvd_triv_left)
  ultimately have "31 dvd 9 * (c * 255) - 31 * (74 * c)" by (rule dvd_diff_nat)
  moreover have "9 * (c * 255) - 31 * (74 * c) = c" by simp
  ultimately have "31 dvd c" by simp
  then have "31 \<le> c" using assms(1) by (rule dvd_imp_le)
  with assms(2) show False by simp
qed

lemma to_8bit_mid:
  assumes "0 < c" "c < 31"
  shows "to_8bit c = (c * 255) div 31"
proof -
  define x :: rat where "x = of_nat c / 31"
  define q where "q = fl_div (of_nat c) 31"
  define p where "p = fl_mul q 255"
  define n where "n = (c * 255) div 31"
  define k where "k = (c * 255) mod 31"
  have x0: "0 < x" using assms by (simp add: x_def)
  have x1: "x < 1" using assms by (simp add: x_def)
  have "\<bar>q - x\<bar> \<le> x / 2 ^ 53"
    using fl_round_error[OF x0] by (simp add: q_def fl_div_def x_def)
  then have qx: "\<bar>q - x\<bar> \<le> x / 9007199254740992" by simp
  have q0: "0 < q" using qx x0 by linarith
  have q2: "q < 2" using qx x1 x0 by linarith
  have "\<bar>p - q * 255\<bar> \<le> q * 255 / 2 ^ 53"
    using fl_round_error[of "q * 255"] q0 by (simp add: p_def fl_mul_def)
  then have pq: "\<bar>p - q * 255\<bar> \<le> q * 255 / 9007199254740992" by simp
  have err: "\<bar>p - x * 255\<bar> < 1 / 31"
    using qx pq x1 x0 q2 q0 by linarith
  have k1: "1 \<le> k" "k \<le> 30" using mod31_pos[OF assms] by (simp_all add: k_def)
  have "c * 255 = 31 * n + k" by (simp add: n_def k_def)
  then have "of_nat (c * 255) = (of_nat (31 * n + k) :: rat)" by (simp only:)
  then have xv: "x * 255 = of_nat n + of_nat k / 31" by (simp add: x_def field_simps)
  have "(1::rat) \<le> of_nat k" "of_nat k \<le> (30::rat)" using k1 by simp_all
  then have lo: "of_nat n + 1 / 31 \<le> x * 255" and hi: "x * 255 \<le> of_nat n + 30 / 31"
    by (simp_all add: xv field_simps)
  have "of_int (int n) < p" "p < of_int (int n) + 1"
    using err lo hi by (simp_all only: of_int_of_nat_eq)
  then have fl: "\<lfloor>p\<rfloor> = int n" by (simp add: floor_unique)
  have "0 \<le> p" using \<open>of_int (int n) < p\<close> by simp
  then show ?thesis by (simp add: to_8bit_def py_int_def fl n_def p_def[symmetric] q_def[symmetric])
qed

lemma to_8bit_eq: "c \<le> 31 \<Longrightarrow> to_8bit c = (c * 255) div 31"
  using to_8bit_0 to_8bit_31 to_8bit_mid[of c] by (cases "c = 0"; cases "c = 31") auto


subsection \<open>Bit fields of natural numbers\<close>

lemma and_mask_nat: "(n::nat) AND mask k = n mod 2 ^ k"
  by (simp add: take_bit_eq_mod flip: take_bit_eq_mask)

lemma field_nat: "drop_bit k ((n::nat) AND push_bit k (mask m)) = (n div 2 ^ k) mod 2 ^ m"
proof -
  have "drop_bit k (n AND push_bit k (mask m)) = take_bit m (drop_bit k n)"
    by (rule bit_eqI) (auto simp add: bit_simps)
  then show ?thesis by (simp add: take_bit_eq_mod drop_bit_eq_div)
qed

lemma shift_mask_nat: "drop_bit k (n::nat) AND mask m = (n div 2 ^ k) mod 2 ^ m"
  by (simp add: and_mask_nat drop_bit_eq_div)

lemma red_field: "(n::nat) AND 0x001F = n mod 32"
  using and_mask_nat[of n 5] by (simp add: mask_eq_exp_minus_1)

lemma green_field: "drop_bit 5 ((n::nat) AND 0x03E0) = (n div 32) mod 32"
  using field_nat[of 5 n 5] by (simp add: mask_eq_exp_minus_1 push_bit_eq_mult)

lemma blue_field: "drop_bit 10 ((n::nat) AND 0x7C00) = (n div 1024) mod 32"
  using field_nat[of 10 n 5] by (simp add: mask_eq_exp_minus_1 push_bit_eq_mult)

lemma green_field_div: "((n::nat) AND 0x03E0) div 32 = (n div 32) mod 32"
  using green_field[of n] by (simp add: drop_bit_eq_div)

lemma blue_field_div: "((n::nat) AND 0x7C00) div 1024 = (n div 1024) mod 32"
  using blue_field[of n] by (simp add: drop_bit_eq_div)

subsection \<open>The 5-bit to 8-bit conversion\<close>

text \<open>
  C3. For every 5-bit colour component \<open>c\<close> (0 to 31), the 8-bit channel value that the
  palette decoder computes in floating point, \<^verbatim>\<open>int((c / 31.0) * 255)\<close>, is the integer
  \<open>floor (c * 255 / 31)\<close>; and the colour decoded from one 16-bit value has these three
  channels, taken from bits 0-4, 5-9 and 10-14.
\<close>

theorem channel_conversion_exact:
  "(c \<le> 31 \<longrightarrow> to_8bit c = (c * 255) div 31) \<and>
   palette_entry [lo, hi] 0 =
     (let color16 = unat lo + 256 * unat hi
      in Inr ((color16 mod 32 * 255) div 31,
              (color16 div 32 mod 32 * 255) div 31,
              (color16 div 1024 mod 32 * 255) div 31))"
proof -
  define color16 where "color16 = unat lo + 256 * unat hi"
  have r: "to_8bit (color16 mod 32) = (color16 mod 32 * 255) div 31"
    by (rule to_8bit_eq) (simp add: less_Suc_eq_le[symmetric])
  have g: "to_8bit (color16 div 32 mod 32) = (color16 div 32 mod 32 * 255) div 31"
    by (rule to_8bit_eq) (simp add: less_Suc_eq_le[symmetric])
  have b: "to_8bit (color16 div 1024 mod 32) = (color16 div 1024 mod 32 * 255) div 31"
    by (rule to_8bit_eq) (simp add: less_Suc_eq_le[symmetric])
  have "palette_entry [lo, hi] 0 =
          Inr (to_8bit (color16 mod 32), to_8bit (color16 div 32 mod 32),
               to_8bit (color16 div 1024 mod 32))"
    by (simp add: palette_entry_def py_slice_def unpack_H_def bindE_def red_field green_field_div
        blue_field_div color16_def drop_bit_eq_div)
  then show ?thesis
    using r g b to_8bit_eq[of c] by (simp add: color16_def Let_def)
qed

theorem channel_conversion_examples:
  "to_8bit 0 = 0 \<and> to_8bit 31 = 255 \<and> to_8bit 16 = 131"
proof -
  have "(0::nat) \<le> 31" "(31::nat) \<le> 31" "(16::nat) \<le> 31" by simp_all
  then show ?thesis
    using channel_conversion_exact[of 0] channel_conversion_exact[of 31]
      channel_conversion_exact[of 16]
    by simp
qed

subsection \<open>Errors and loops\<close>

lemma bindE_Inr [simp]: "bindE (Inr v) f = f v"
  by (simp add: bindE_def)

lemma bindE_Inl [simp]: "bindE (Inl e) f = Inl e"
  by (simp add: bindE_def)

lemma foldE_append: "foldE f (as @ bs) s = bindE (foldE f as s) (foldE f bs)"
  by (induction as arbitrary: s) (auto simp: bindE_def split: sum.splits)

lemma foldE_snoc: "foldE f (as @ [a]) s = bindE (foldE f as s) (f a)"
  by (simp add: foldE_append bindE_def split: sum.splits)

lemma foldE_collect:
  assumes "\<And>a. a \<in> set as \<Longrightarrow> g a = Inr (h a)"
  shows "foldE (\<lambda>a acc. bindE (g a) (\<lambda>v. Inr (acc @ [v]))) as acc0 = Inr (acc0 @ map h as)"
  using assms by (induction as arbitrary: acc0) simp_all

lemma unpack_H_pair [simp]: "unpack_H [lo, hi] = Inr (unat lo + 256 * unat hi)"
  by (simp add: unpack_H_def)

lemma unpack_H_wrong: "length b \<noteq> 2 \<Longrightarrow> unpack_H b = Inl StructError"
  by (auto simp: unpack_H_def split: list.splits)

lemma slice2:
  assumes "i + 2 \<le> length xs"
  shows "py_slice xs i (i + 2) = [xs ! i, xs ! (i + 1)]"
proof -
  have "drop i xs = xs ! i # drop (Suc i) xs"
    using assms by (intro Cons_nth_drop_Suc[symmetric]) simp
  moreover have "drop (Suc i) xs = xs ! Suc i # drop (Suc (Suc i)) xs"
    using assms by (intro Cons_nth_drop_Suc[symmetric]) simp
  ultimately show ?thesis by (simp add: py_slice_def numeral_2_eq_2)
qed

lemma unpack_H_slice:
  "i + 2 \<le> length xs \<Longrightarrow>
   unpack_H (py_slice xs i (i + 2)) = Inr (unat (xs ! i) + 256 * unat (xs ! (i + 1)))"
  using slice2[of i xs] by simp

lemma unpack_H_short:
  "length xs < i + 2 \<Longrightarrow> unpack_H (py_slice xs i (i + 2)) = Inl StructError"
  by (rule unpack_H_wrong) (simp add: py_slice_def)

lemma low_nibble: "unat ((b::8 word) AND 0x0F) = unat b mod 16"
proof -
  have "unat (b AND 0x0F) = unat b AND 15" by (simp add: unsigned_and_eq)
  then show ?thesis using and_mask_nat[of "unat b" 4] by (simp add: mask_eq_exp_minus_1)
qed
lemma high_nibble: "unat (drop_bit 4 (b::8 word) AND 0x0F) = unat b div 16"
proof -
  have "unat (drop_bit 4 b AND 0x0F) = drop_bit 4 (unat b) AND 15"
    by (simp add: unsigned_and_eq unat_drop_bit_eq)
  also have "\<dots> = (unat b div 16) mod 16"
    using and_mask_nat[of "drop_bit 4 (unat b)" 4] by (simp add: mask_eq_exp_minus_1 drop_bit_eq_div)
  also have "\<dots> = unat b div 16"
  proof -
    have "unat b < 256" using unsigned_less[of b] by simp
    then show ?thesis by simp
  qed
  finally show ?thesis .
qed

subsection \<open>load_ds_palette\<close>

declare load_ds_palette_loop.simps [simp del]

lemma palette_entry_ok:
  "i + 2 \<le> length data \<Longrightarrow> \<exists>c. palette_entry data i = Inr c"
  using unpack_H_slice[of i data] by (simp add: palette_entry_def Let_def)

lemma palette_entry_short:
  "length data < i + 2 \<Longrightarrow> palette_entry data i = Inl StructError"
  using unpack_H_short[of data i] by (simp add: palette_entry_def)

lemma load_ds_palette_loop_even:
  "i \<le> length data \<Longrightarrow> even (length data - i) \<Longrightarrow>
   \<exists>new. load_ds_palette_loop data i palette = Inr (palette @ new) \<and>
         length new = (length data - i) div 2 \<and>
         (\<forall>k < length new. palette_entry data (i + 2 * k) = Inr (new ! k))"
proof (induction data i palette rule: load_ds_palette_loop.induct)
  case (1 data i palette)
  show ?case
  proof (cases "i < length data")
    case False
    then show ?thesis using "1.prems" by (simp add: load_ds_palette_loop.simps)
  next
    case True
    then have i2: "i + 2 \<le> length data" using "1.prems" by presburger
    then obtain c where c: "palette_entry data i = Inr c"
      using palette_entry_ok by blast
    have "even (length data - (i + 2))" using "1.prems" i2 by simp
    from "1.IH"[OF True i2 this, of c] obtain new where
      new: "load_ds_palette_loop data (i + 2) (palette @ [c]) = Inr ((palette @ [c]) @ new)"
        "length new = (length data - (i + 2)) div 2"
        "\<forall>k < length new. palette_entry data (i + 2 + 2 * k) = Inr (new ! k)"
      by blast
    have len: "length (c # new) = (length data - i) div 2"
      using new(2) i2 by (simp add: Suc_diff_le div2_Suc_Suc[symmetric] del: div2_Suc_Suc) 
    have ent: "\<forall>k < length (c # new). palette_entry data (i + 2 * k) = Inr ((c # new) ! k)"
    proof (intro allI impI)
      fix k assume "k < length (c # new)"
      then show "palette_entry data (i + 2 * k) = Inr ((c # new) ! k)"
        using c new(3) by (cases k) (simp_all add: add.assoc)
    qed
    have "load_ds_palette_loop data i palette = Inr (palette @ c # new)"
      using True c new(1) by (subst load_ds_palette_loop.simps) simp
    then show ?thesis using len ent by blast
  qed
qed

lemma load_ds_palette_loop_odd:
  "i \<le> length data \<Longrightarrow> odd (length data - i) \<Longrightarrow>
   load_ds_palette_loop data i palette = Inl StructError"
proof (induction data i palette rule: load_ds_palette_loop.induct)
  case (1 data i palette)
  have lt: "i < length data" using "1.prems" by (cases "i = length data") auto
  show ?case
  proof (cases "i + 2 \<le> length data")
    case False
    then have "palette_entry data i = Inl StructError" by (simp add: palette_entry_short)
    then show ?thesis using lt by (subst load_ds_palette_loop.simps) simp
  next
    case True
    then obtain c where c: "palette_entry data i = Inr c"
      using palette_entry_ok by blast
    have "odd (length data - (i + 2))" using "1.prems" True by simp
    from "1.IH"[OF lt True this, of c]
    show ?thesis using lt c by (subst load_ds_palette_loop.simps) simp
  qed
qed


text \<open>
  C2, as the code has it. A buffer of even length decodes to one colour for each pair of
  bytes, so to \<open>length / 2\<close> colours. A buffer of odd length does not decode: the last
  slice \<^verbatim>\<open>data[i:i+2]\<close> holds one byte and \<^verbatim>\<open>struct.unpack\<close> raises.
\<close>

theorem palette_decoding_by_parity:
  "(even (length data) \<longrightarrow>
      (\<exists>palette. load_ds_palette data = Inr palette \<and> length palette = length data div 2 \<and>
         (\<forall>k < length palette. palette_entry data (2 * k) = Inr (palette ! k)))) \<and>
   (odd (length data) \<longrightarrow> load_ds_palette data = Inl StructError)"
  using load_ds_palette_loop_even[of 0 data "[]"] load_ds_palette_loop_odd[of 0 data "[]"]
  by (auto simp: load_ds_palette_def)

theorem palette_decoding_by_parity_witness:
  "(\<exists>palette. load_ds_palette [0x1F, 0x00, 0xE0, 0x03] = Inr palette \<and> length palette = 2) \<and>
   load_ds_palette [0x1F, 0x00, 0xE0] = Inl StructError"
  using palette_decoding_by_parity[of "[0x1F, 0x00, 0xE0, 0x03]"]
    palette_decoding_by_parity[of "[0x1F, 0x00, 0xE0]"]
  by auto

text \<open>
  C2 as stated fails on the three-byte buffer \<open>1F 00 E0\<close>: decoding does not return
  a palette of length 1, it raises.
\<close>

theorem palette_odd_buffer_counterexample:
  "\<not> (\<exists>palette. load_ds_palette [0x1F, 0x00, 0xE0] = Inr palette \<and> length palette = 3 div 2)"
  using load_ds_palette_loop_odd[of 0 "[0x1F, 0x00, 0xE0]" "[]"]
  by (simp add: load_ds_palette_def)

subsection \<open>parse_oam_attrs\<close>

lemma size_table_lookup:
  assumes "s < 4" "z < 4"
  shows "\<exists>by_size w h. SIZE_TABLE s = Some by_size \<and> by_size z = Some (w, h) \<and>
           w \<in> {8, 16, 32, 64} \<and> h \<in> {8, 16, 32, 64}"
proof -
  have "s = 0 \<or> s = 1 \<or> s = 2 \<or> s = 3" "z = 0 \<or> z = 1 \<or> z = 2 \<or> z = 3"
    using assms by arith+
  then show ?thesis by (elim disjE) (simp_all add: SIZE_TABLE_def)
qed

lemma mask3_less: "drop_bit k (n::nat) AND 0x3 < 4"
  using shift_mask_nat[of k n 2] by (simp add: mask_eq_exp_minus_1)

lemma parse_oam_attrs_total:
  "\<exists>w h xw yw.
     parse_oam_attrs attr0 attr1 attr2 =
       Inr \<lparr> y_coord = yw,
             rot_scaling = drop_bit 8 attr0 AND 0x1,
             double_size = (if drop_bit 8 attr0 AND 0x1 \<noteq> 0 then drop_bit 9 attr0 AND 0x1 else 0),
             obj_disable = (if drop_bit 8 attr0 AND 0x1 \<noteq> 0 then 0 else drop_bit 9 attr0 AND 0x1),
             obj_mode = drop_bit 10 attr0 AND 0x3,
             mosaic = drop_bit 12 attr0 AND 0x1,
             colors_palettes = drop_bit 13 attr0 AND 0x1,
             obj_shape = drop_bit 14 attr0 AND 0x3,
             x_coord = xw,
             rot_scaling_param = (if drop_bit 8 attr0 AND 0x1 \<noteq> 0 then drop_bit 9 attr1 AND 0x1F else 0),
             h_flip = (if drop_bit 8 attr0 AND 0x1 \<noteq> 0 then 0 else drop_bit 12 attr1 AND 0x1),
             v_flip = (if drop_bit 8 attr0 AND 0x1 \<noteq> 0 then 0 else drop_bit 13 attr1 AND 0x1),
             obj_size = drop_bit 14 attr1 AND 0x3,
             tile_number = attr2 AND 0x3FF,
             priority = drop_bit 10 attr2 AND 0x3,
             palette_number = drop_bit 12 attr2 AND 0xF,
             width = w, height = h, obj_set = None, obj_index = None \<rparr> \<and>
     (xw, yw) = wrap_ds_coordinate (int (attr1 AND 0x1FF)) (int (attr0 AND 0xFF)) \<and>
     w \<in> {8, 16, 32, 64} \<and> h \<in> {8, 16, 32, 64} \<and>
     (\<forall>a2. \<exists>o2. parse_oam_attrs attr0 attr1 a2 = Inr o2 \<and> width o2 = w \<and> height o2 = h)"
proof -
  obtain by_size w h where t: "SIZE_TABLE (drop_bit 14 attr0 AND 0x3) = Some by_size"
      "by_size (drop_bit 14 attr1 AND 0x3) = Some (w, h)"
      "w \<in> {8, 16, 32, 64}" "h \<in> {8, 16, 32, 64}"
    using size_table_lookup[OF mask3_less mask3_less] by blast
  obtain xw yw where c: "wrap_ds_coordinate (int (attr1 AND 0x1FF)) (int (attr0 AND 0xFF)) = (xw, yw)"
    by (cases "wrap_ds_coordinate (int (attr1 AND 0x1FF)) (int (attr0 AND 0xFF))")
  show ?thesis
    using t c by (simp add: parse_oam_attrs_def dict_get_def Let_def)
qed


text \<open>
  C4. For all attribute words, the object's screen x is the 9-bit raw x (bits 0-8 of
  attr1) less 512 when the raw x is at least 256, and the raw x otherwise; its screen y
  is the 8-bit raw y (bits 0-7 of attr0) less 256 when the raw y is at least 192, and the
  raw y otherwise.
\<close>

theorem coordinate_recovery:
  "\<exists>obj. parse_oam_attrs attr0 attr1 attr2 = Inr obj \<and>
     x_coord obj = (let x = int (attr1 mod 512) in if 256 \<le> x then x - 512 else x) \<and>
     y_coord obj = (let y = int (attr0 mod 256) in if 192 \<le> y then y - 256 else y)"
proof -
  have x: "attr1 AND 0x1FF = attr1 mod 512"
    using and_mask_nat[of attr1 9] by (simp add: mask_eq_exp_minus_1)
  have y: "attr0 AND 0xFF = attr0 mod 256"
    using and_mask_nat[of attr0 8] by (simp add: mask_eq_exp_minus_1)
  from parse_oam_attrs_total[of attr0 attr1 attr2] show ?thesis
    unfolding x y by (auto simp: wrap_ds_coordinate_def Let_def)
qed

theorem coordinate_recovery_witness:
  "(\<exists>obj. parse_oam_attrs 200 300 0 = Inr obj \<and> x_coord obj = - 212 \<and> y_coord obj = - 56) \<and>
   (\<exists>obj. parse_oam_attrs 100 100 0 = Inr obj \<and> x_coord obj = 100 \<and> y_coord obj = 100)"
  using coordinate_recovery[of 200 300 0] coordinate_recovery[of 100 100 0]
  by simp

subsection \<open>decode_4bpp_tile\<close>

lemma length_tile_pixels: "length (tile_pixels bs) = 2 * length bs"
  by (induction bs) simp_all

lemma tile_pixels_nth:
  "k < 2 * length bs \<Longrightarrow>
   tile_pixels bs ! k =
     (if even k then unat (bs ! (k div 2)) mod 16 else unat (bs ! (k div 2)) div 16)"
proof (induction bs arbitrary: k)
  case Nil
  then show ?case by simp
next
  case (Cons b bs)
  show ?case
  proof (cases k)
    case 0
    then show ?thesis by (simp add: low_nibble)
  next
    case (Suc k1)
    show ?thesis
    proof (cases k1)
      case 0
      then show ?thesis using Suc by (simp add: high_nibble)
    next
      case (Suc k2)
      then have k: "k = Suc (Suc k2)" using \<open>k = Suc k1\<close> by simp
      then have "k2 < 2 * length bs" using Cons.prems by simp
      from Cons.IH[OF this] show ?thesis by (simp add: k)
    qed
  qed
qed

lemma tile_row_ok:
  assumes "y * 8 + 8 \<le> length pixels"
  shows "tile_row pixels y = Inr (map (\<lambda>x. pixels ! (y * 8 + x)) [0..<8])"
proof -
  have "\<And>x. x \<in> set [0..<8] \<Longrightarrow> list_get pixels (y * 8 + x) = Inr (pixels ! (y * 8 + x))"
    using assms by (simp add: list_get_def)
  from foldE_collect[of "[0..<8]" "\<lambda>x. list_get pixels (y * 8 + x)", OF this, of "[]"]
  show ?thesis by (simp add: tile_row_def)
qed

lemma decode_4bpp_tile_ok:
  assumes "length tile_bytes = 32"
  shows "decode_4bpp_tile tile_bytes =
           Inr (map (\<lambda>y. map (\<lambda>x. tile_pixels tile_bytes ! (y * 8 + x)) [0..<8]) [0..<8])"
proof -
  have "\<And>y. y \<in> set [0..<8] \<Longrightarrow>
          tile_row (tile_pixels tile_bytes) y =
            Inr (map (\<lambda>x. tile_pixels tile_bytes ! (y * 8 + x)) [0..<8])"
    using assms by (intro tile_row_ok) (simp add: length_tile_pixels)
  from foldE_collect[of "[0..<8]" "tile_row (tile_pixels tile_bytes)", OF this, of "[]"]
  show ?thesis by (simp add: decode_4bpp_tile_def)
qed

text \<open>
  C5. For every 32-byte input the tile decoder returns a grid of 8 rows of 8 entries;
  the entry at row \<open>y\<close>, column \<open>x\<close> is the value number \<open>y * 8 + x\<close> of the sequence
  that takes, for each byte in order, its low nibble and then its high nibble; every
  entry is below 16. The byte 0x21 gives the two values 1, 2.
\<close>

theorem tile_grid_layout:
  assumes "length tile_bytes = 32"
  shows "\<exists>tile. decode_4bpp_tile tile_bytes = Inr tile \<and> length tile = 8 \<and>
           (\<forall>y < 8. length (tile ! y) = 8 \<and>
              (\<forall>x < 8. tile ! y ! x < 16 \<and>
                 tile ! y ! x =
                   (let k = y * 8 + x; byte = unat (tile_bytes ! (k div 2))
                    in if even k then byte mod 16 else byte div 16))) \<and>
         tile_pixels [0x21] = [1, 2]"
proof -
  define tile where
    "tile = map (\<lambda>y. map (\<lambda>x. tile_pixels tile_bytes ! (y * 8 + x)) [0..<8]) [0..<8]"
  have d: "decode_4bpp_tile tile_bytes = Inr tile"
    using decode_4bpp_tile_ok[OF assms] by (simp only: tile_def)
  have len: "length tile = 8" by (simp add: tile_def)
  have row: "length (tile ! y) = 8" if "y < 8" for y
    using that by (simp add: tile_def)
  have nth: "tile ! y ! x = tile_pixels tile_bytes ! (y * 8 + x)" if "y < 8" "x < 8" for x y
    using that by (simp add: tile_def)
  have v: "tile ! y ! x =
             (let k = y * 8 + x; byte = unat (tile_bytes ! (k div 2))
              in if even k then byte mod 16 else byte div 16)" if "y < 8" "x < 8" for x y
    using that assms tile_pixels_nth[of "y * 8 + x" tile_bytes] nth[OF that]
    by (simp add: Let_def)
  have b: "tile ! y ! x < 16" if "y < 8" "x < 8" for x y
  proof -
    have "unat (tile_bytes ! ((y * 8 + x) div 2)) < 256"
      using unsigned_less[of "tile_bytes ! ((y * 8 + x) div 2)"] by simp
    then show ?thesis unfolding v[OF that] Let_def by (simp add: less_mult_imp_div_less)
  qed
  have "tile_pixels [0x21] = [1, 2]" by simp
  then show ?thesis using d len row v b by blast
qed

theorem tile_grid_layout_witness:
  "\<exists>tile. decode_4bpp_tile (0x21 # replicate 31 0) = Inr tile \<and>
     tile ! 0 ! 0 = 1 \<and> tile ! 0 ! 1 = 2"
proof -
  have "length ((0x21 :: byte) # replicate 31 0) = 32" by simp
  from tile_grid_layout[OF this] obtain tile where
    t: "decode_4bpp_tile (0x21 # replicate 31 0) = Inr tile"
    and e: "\<forall>y < 8. length (tile ! y) = 8 \<and>
              (\<forall>x < 8. tile ! y ! x < 16 \<and>
                 tile ! y ! x =
                   (let k = y * 8 + x; byte = unat (((0x21 :: byte) # replicate 31 0) ! (k div 2))
                    in if even k then byte mod 16 else byte div 16))"
    by blast
  from e have "tile ! 0 ! 0 = 1" "tile ! 0 ! 1 = 2" by (simp_all add: Let_def)
  with t show ?thesis by blast
qed

subsection \<open>parse_custom_oam_format\<close>

declare parse_set.simps [simp del]

lemma unpack_H_u16:
  assumes "j = i + 2" "j \<le> length xs"
  shows "unpack_H (py_slice xs i j) = Inr (u16_at xs i)"
  using assms unpack_H_slice[of i xs] by (simp add: u16_at_def)

lemma parse_set_spec:
  "\<exists>new. parse_set oam_data set_no count i offset objects =
           Inr (objects @ new, offset + 6 * length new) \<and>
         length new = min (count - i) ((length oam_data - offset) div 6) \<and>
         (\<forall>j < length new.
            \<exists>obj. parse_oam_attrs (u16_at oam_data (offset + 6 * j))
                     (u16_at oam_data (offset + 6 * j + 2))
                     (u16_at oam_data (offset + 6 * j + 4)) = Inr obj \<and>
                  new ! j = obj\<lparr> obj_set := Some set_no, obj_index := Some (i + j) \<rparr>)"
proof (induction oam_data set_no count i offset objects rule: parse_set.induct)
  case (1 oam_data set_no count i offset objects)
  show ?case
  proof (cases "i < count \<and> offset + 6 \<le> length oam_data")
    case False
    then have "parse_set oam_data set_no count i offset objects = Inr (objects, offset)"
      by (subst parse_set.simps) auto
    moreover have "min (count - i) ((length oam_data - offset) div 6) = 0"
      using False by (auto simp: min_def div_eq_0_iff)
    ultimately show ?thesis by simp
  next
    case True
    then have lt: "i < count" and fit: "offset + 6 \<le> length oam_data" by simp_all
    have a0: "unpack_H (py_slice oam_data offset (offset + 2)) = Inr (u16_at oam_data offset)"
      using fit by (intro unpack_H_u16) simp_all
    have a1: "unpack_H (py_slice oam_data (offset + 2) (offset + 4)) =
                Inr (u16_at oam_data (offset + 2))"
      using fit by (intro unpack_H_u16) simp_all
    have a2: "unpack_H (py_slice oam_data (offset + 4) (offset + 6)) =
                Inr (u16_at oam_data (offset + 4))"
      using fit by (intro unpack_H_u16) simp_all
    obtain obj where obj: "parse_oam_attrs (u16_at oam_data offset) (u16_at oam_data (offset + 2))
                             (u16_at oam_data (offset + 4)) = Inr obj"
      using parse_oam_attrs_total by blast
    let ?o = "obj\<lparr> obj_set := Some set_no, obj_index := Some i \<rparr>"
    have nfit: "\<not> length oam_data < offset + 6" using fit by simp
    from "1.IH"[OF lt nfit, of obj]
    obtain new where
      n1: "parse_set oam_data set_no count (i + 1) (offset + 6) (objects @ [?o]) =
             Inr ((objects @ [?o]) @ new, offset + 6 + 6 * length new)"
      and n2: "length new = min (count - (i + 1)) ((length oam_data - (offset + 6)) div 6)"
      and n3: "\<forall>j < length new.
            \<exists>obj. parse_oam_attrs (u16_at oam_data (offset + 6 + 6 * j))
                     (u16_at oam_data (offset + 6 + 6 * j + 2))
                     (u16_at oam_data (offset + 6 + 6 * j + 4)) = Inr obj \<and>
                  new ! j = obj\<lparr> obj_set := Some set_no, obj_index := Some (i + 1 + j) \<rparr>"
      by blast
    have r: "parse_set oam_data set_no count i offset objects =
               Inr (objects @ ?o # new, offset + 6 * length (?o # new))"
      using lt nfit a0 a1 a2 obj n1 by (subst parse_set.simps) simp
    define q where "q = (length oam_data - (offset + 6)) div 6"
    have eq: "length oam_data - offset = (length oam_data - (offset + 6)) + 6"
      using fit by simp
    have "(length oam_data - offset) div 6 = Suc q"
      unfolding q_def by (subst eq) simp
    moreover have "length new = min (count - (i + 1)) q" using n2 by (simp only: q_def)
    moreover have "Suc (min (count - (i + 1)) q) = min (count - i) (Suc q)"
      using lt by arith
    ultimately have l: "length (?o # new) = min (count - i) ((length oam_data - offset) div 6)"
      by simp
    have e: "\<forall>j < length (?o # new).
            \<exists>obj. parse_oam_attrs (u16_at oam_data (offset + 6 * j))
                     (u16_at oam_data (offset + 6 * j + 2))
                     (u16_at oam_data (offset + 6 * j + 4)) = Inr obj \<and>
                  (?o # new) ! j = obj\<lparr> obj_set := Some set_no, obj_index := Some (i + j) \<rparr>"
    proof (intro allI impI)
      fix j assume j: "j < length (?o # new)"
      show "\<exists>obj. parse_oam_attrs (u16_at oam_data (offset + 6 * j))
                     (u16_at oam_data (offset + 6 * j + 2))
                     (u16_at oam_data (offset + 6 * j + 4)) = Inr obj \<and>
                  (?o # new) ! j = obj\<lparr> obj_set := Some set_no, obj_index := Some (i + j) \<rparr>"
      proof (cases j)
        case 0
        then show ?thesis using obj by simp
      next
        case (Suc j')
        then have "j' < length new" using j by simp
        with n3 show ?thesis by (simp add: Suc add.assoc add.left_commute)
      qed
    qed
    show ?thesis using r l e by blast
  qed
qed


lemma unpack_H_cases:
  assumes "j = i + 2"
  shows "unpack_H (py_slice xs i j) =
           (if j \<le> length xs then Inr (u16_at xs i) else Inl StructError)"
proof (cases "j \<le> length xs")
  case True
  then show ?thesis using unpack_H_u16[OF assms] by simp
next
  case False
  then have "unpack_H (py_slice xs i (i + 2)) = Inl StructError"
    using assms by (intro unpack_H_short) simp
  then show ?thesis using False assms by simp
qed

lemma header_short:
  assumes "length oam_data < 10"
  shows "parse_custom_oam_format oam_data = Inl StructError"
  unfolding parse_custom_oam_format_def
  using assms
  by (simp add: unpack_H_cases[of 2 0] unpack_H_cases[of 4 2] unpack_H_cases[of 6 4]
      unpack_H_cases[of 8 6] unpack_H_cases[of 10 8])

text \<open>
  C6. Parsing a document raises (struct.error, the spec's MalformedHeader) exactly when
  the buffer has fewer than 10 bytes. A buffer of at least 10 bytes always parses: set 1
  holds as many records as the header declares or as fit in the bytes after the header,
  whichever is less; set 2, read after set 1 when two more bytes are there for its count,
  likewise, and is empty otherwise. The object at position \<open>j\<close> of a set is the record
  at that place, decoded by \<^verbatim>\<open>parse_oam_attrs\<close>, with the set number and the index \<open>j\<close>.
\<close>

theorem document_parsing:
  "(length oam_data < 10 \<longrightarrow> parse_custom_oam_format oam_data = Inl StructError) \<and>
   (10 \<le> length oam_data \<longrightarrow>
      (\<exists>header set1 set2.
         parse_custom_oam_format oam_data = Inr (header, set1, set2) \<and>
         set1_count header = u16_at oam_data 8 \<and>
         multiplier header = u16_at oam_data 4 \<and>
         length set1 = min (set1_count header) ((length oam_data - 10) div 6) \<and>
         (\<forall>j < length set1.
            \<exists>obj. parse_oam_attrs (u16_at oam_data (10 + 6 * j))
                     (u16_at oam_data (10 + 6 * j + 2))
                     (u16_at oam_data (10 + 6 * j + 4)) = Inr obj \<and>
                  set1 ! j = obj\<lparr> obj_set := Some 1, obj_index := Some j \<rparr>) \<and>
         (let off = 10 + 6 * length set1
          in if off + 2 \<le> length oam_data
             then length set2 = min (u16_at oam_data off) ((length oam_data - (off + 2)) div 6) \<and>
                  (\<forall>j < length set2.
                     \<exists>obj. parse_oam_attrs (u16_at oam_data (off + 2 + 6 * j))
                              (u16_at oam_data (off + 2 + 6 * j + 2))
                              (u16_at oam_data (off + 2 + 6 * j + 4)) = Inr obj \<and>
                           set2 ! j = obj\<lparr> obj_set := Some 2, obj_index := Some j \<rparr>)
             else set2 = [])))"
proof (intro conjI impI)
  assume "length oam_data < 10"
  then show "parse_custom_oam_format oam_data = Inl StructError" by (rule header_short)
next
  assume len: "10 \<le> length oam_data"
  define header where
    "header = \<lparr> total_size = u16_at oam_data 0, byte_2_3 = u16_at oam_data 2,
                 multiplier = u16_at oam_data 4, set2_offset_adjust = u16_at oam_data 6,
                 set1_count = u16_at oam_data 8 \<rparr>"
  obtain set1 where
    s1: "parse_set oam_data 1 (set1_count header) 0 10 [] = Inr (set1, 10 + 6 * length set1)"
    and l1: "length set1 = min (set1_count header) ((length oam_data - 10) div 6)"
    and e1: "\<forall>j < length set1.
            \<exists>obj. parse_oam_attrs (u16_at oam_data (10 + 6 * j))
                     (u16_at oam_data (10 + 6 * j + 2))
                     (u16_at oam_data (10 + 6 * j + 4)) = Inr obj \<and>
                  set1 ! j = obj\<lparr> obj_set := Some 1, obj_index := Some j \<rparr>"
    using parse_set_spec[of oam_data 1 "set1_count header" 0 10 "[]"] by auto
  define off where "off = 10 + 6 * length set1"
  have s1': "parse_set oam_data (Suc 0) (u16_at oam_data 8) 0 10 [] = Inr (set1, off)"
    using s1 by (simp add: header_def off_def)
  have hdr: "parse_custom_oam_format oam_data =
               (if off + 2 \<le> length oam_data
                then bindE (unpack_H (py_slice oam_data off (off + 2))) (\<lambda>set2_count.
                     bindE (parse_set oam_data 2 set2_count 0 (off + 2) [])
                       (\<lambda>(set2_objects, offset). Inr (header, set1, set2_objects)))
                else Inr (header, set1, []))"
    unfolding parse_custom_oam_format_def using len
    by (simp add: unpack_H_cases[of 2 0] unpack_H_cases[of 4 2] unpack_H_cases[of 6 4]
        unpack_H_cases[of 8 6] unpack_H_cases[of 10 8] s1' header_def Let_def)
  have c1: "set1_count header = u16_at oam_data 8" and c2: "multiplier header = u16_at oam_data 4"
    by (simp_all add: header_def)
  have "\<exists>set2. parse_custom_oam_format oam_data = Inr (header, set1, set2) \<and>
         (if off + 2 \<le> length oam_data
          then length set2 = min (u16_at oam_data off) ((length oam_data - (off + 2)) div 6) \<and>
               (\<forall>j < length set2.
                  \<exists>obj. parse_oam_attrs (u16_at oam_data (off + 2 + 6 * j))
                           (u16_at oam_data (off + 2 + 6 * j + 2))
                           (u16_at oam_data (off + 2 + 6 * j + 4)) = Inr obj \<and>
                        set2 ! j = obj\<lparr> obj_set := Some 2, obj_index := Some j \<rparr>)
          else set2 = [])"
  proof (cases "off + 2 \<le> length oam_data")
    case False
    then have "parse_custom_oam_format oam_data = Inr (header, set1, [])"
      by (simp only: hdr if_False)
    then show ?thesis using False by (intro exI[of _ "[]"]) (simp only: if_False simp_thms)
  next
    case True
    obtain set2 where
      s2: "parse_set oam_data 2 (u16_at oam_data off) 0 (off + 2) [] =
             Inr (set2, off + 2 + 6 * length set2)"
      and l2: "length set2 = min (u16_at oam_data off) ((length oam_data - (off + 2)) div 6)"
      and e2: "\<forall>j < length set2.
                     \<exists>obj. parse_oam_attrs (u16_at oam_data (off + 2 + 6 * j))
                              (u16_at oam_data (off + 2 + 6 * j + 2))
                              (u16_at oam_data (off + 2 + 6 * j + 4)) = Inr obj \<and>
                           set2 ! j = obj\<lparr> obj_set := Some 2, obj_index := Some j \<rparr>"
      using parse_set_spec[of oam_data 2 "u16_at oam_data off" 0 "off + 2" "[]"]
      by auto
    have u: "unpack_H (py_slice oam_data off (off + 2)) = Inr (u16_at oam_data off)"
      using True by (intro unpack_H_u16) simp_all
    have "parse_custom_oam_format oam_data = Inr (header, set1, set2)"
      by (simp only: hdr True if_True u bindE_Inr s2 prod.case)
    then show ?thesis
      using True l2 e2 by (intro exI[of _ set2]) (simp only: if_True simp_thms)
  qed
  then obtain set2 where p: "parse_custom_oam_format oam_data = Inr (header, set1, set2)"
    and r: "(let off = 10 + 6 * length set1
          in if off + 2 \<le> length oam_data
             then length set2 = min (u16_at oam_data off) ((length oam_data - (off + 2)) div 6) \<and>
                  (\<forall>j < length set2.
                     \<exists>obj. parse_oam_attrs (u16_at oam_data (off + 2 + 6 * j))
                              (u16_at oam_data (off + 2 + 6 * j + 2))
                              (u16_at oam_data (off + 2 + 6 * j + 4)) = Inr obj \<and>
                           set2 ! j = obj\<lparr> obj_set := Some 2, obj_index := Some j \<rparr>)
             else set2 = [])"
    unfolding Let_def off_def by blast
  from p c1 c2 l1 e1 r
  show "\<exists>header set1 set2.
         parse_custom_oam_format oam_data = Inr (header, set1, set2) \<and>
         set1_count header = u16_at oam_data 8 \<and>
         multiplier header = u16_at oam_data 4 \<and>
         length set1 = min (set1_count header) ((length oam_data - 10) div 6) \<and>
         (\<forall>j < length set1.
            \<exists>obj. parse_oam_attrs (u16_at oam_data (10 + 6 * j))
                     (u16_at oam_data (10 + 6 * j + 2))
                     (u16_at oam_data (10 + 6 * j + 4)) = Inr obj \<and>
                  set1 ! j = obj\<lparr> obj_set := Some 1, obj_index := Some j \<rparr>) \<and>
         (let off = 10 + 6 * length set1
          in if off + 2 \<le> length oam_data
             then length set2 = min (u16_at oam_data off) ((length oam_data - (off + 2)) div 6) \<and>
                  (\<forall>j < length set2.
                     \<exists>obj. parse_oam_attrs (u16_at oam_data (off + 2 + 6 * j))
                              (u16_at oam_data (off + 2 + 6 * j + 2))
                              (u16_at oam_data (off + 2 + 6 * j + 4)) = Inr obj \<and>
                           set2 ! j = obj\<lparr> obj_set := Some 2, obj_index := Some j \<rparr>)
             else set2 = [])"
    by blast
qed


theorem document_parsing_witness:
  "parse_custom_oam_format [1, 2, 3, 4, 5, 6, 7, 8, 9] = Inl StructError \<and>
   (\<exists>header set1 set2.
      parse_custom_oam_format [0, 0, 0, 0, 4, 0, 0, 0, 1, 0, 0x10, 0x40, 0x20, 0x80, 3, 0, 0, 0]
        = Inr (header, set1, set2) \<and>
      length set1 = 1 \<and> set2 = [] \<and> obj_set (set1 ! 0) = Some 1 \<and> obj_index (set1 ! 0) = Some 0) \<and>
   (\<exists>header set1 set2.
      parse_custom_oam_format [0, 0, 0, 0, 4, 0, 0, 0, 5, 0, 0x10, 0x40, 0x20, 0x80, 3, 0, 0xFF]
        = Inr (header, set1, set2) \<and>
      length set1 = 1 \<and> set2 = [])"
proof -
  let ?short = "[1, 2, 3, 4, 5, 6, 7, 8, 9] :: byte list"
  let ?doc = "[0, 0, 0, 0, 4, 0, 0, 0, 1, 0, 0x10, 0x40, 0x20, 0x80, 3, 0, 0, 0] :: byte list"
  let ?cut = "[0, 0, 0, 0, 4, 0, 0, 0, 5, 0, 0x10, 0x40, 0x20, 0x80, 3, 0, 0xFF] :: byte list"
  have a: "parse_custom_oam_format ?short = Inl StructError"
    using document_parsing[of ?short] by simp
  have b: "\<exists>header set1 set2. parse_custom_oam_format ?doc = Inr (header, set1, set2) \<and>
      length set1 = 1 \<and> set2 = [] \<and> obj_set (set1 ! 0) = Some 1 \<and> obj_index (set1 ! 0) = Some 0"
  proof -
    have "10 \<le> length ?doc" by simp
    with document_parsing[of ?doc] obtain header set1 set2 where
      p: "parse_custom_oam_format ?doc = Inr (header, set1, set2)"
      and n: "set1_count header = u16_at ?doc 8"
      and l: "length set1 = min (set1_count header) ((length ?doc - 10) div 6)"
      and e: "\<forall>j < length set1.
            \<exists>obj. parse_oam_attrs (u16_at ?doc (10 + 6 * j)) (u16_at ?doc (10 + 6 * j + 2))
                     (u16_at ?doc (10 + 6 * j + 4)) = Inr obj \<and>
                  set1 ! j = obj\<lparr> obj_set := Some 1, obj_index := Some j \<rparr>"
      and r: "let off = 10 + 6 * length set1
          in if off + 2 \<le> length ?doc
             then length set2 = min (u16_at ?doc off) ((length ?doc - (off + 2)) div 6) \<and>
                  (\<forall>j < length set2.
                     \<exists>obj. parse_oam_attrs (u16_at ?doc (off + 2 + 6 * j))
                              (u16_at ?doc (off + 2 + 6 * j + 2))
                              (u16_at ?doc (off + 2 + 6 * j + 4)) = Inr obj \<and>
                           set2 ! j = obj\<lparr> obj_set := Some 2, obj_index := Some j \<rparr>)
             else set2 = []"
      by blast
    have l1: "length set1 = 1" using l n by (simp add: u16_at_def)
    have "length set2 = 0" using r by (simp add: l1 u16_at_def)
    moreover have "obj_set (set1 ! 0) = Some 1 \<and> obj_index (set1 ! 0) = Some 0"
      using e l1 by auto
    ultimately show ?thesis using p l1 by auto
  qed
  have c: "\<exists>header set1 set2. parse_custom_oam_format ?cut = Inr (header, set1, set2) \<and>
      length set1 = 1 \<and> set2 = []"
  proof -
    have "10 \<le> length ?cut" by simp
    with document_parsing[of ?cut] obtain header set1 set2 where
      p: "parse_custom_oam_format ?cut = Inr (header, set1, set2)"
      and n: "set1_count header = u16_at ?cut 8"
      and l: "length set1 = min (set1_count header) ((length ?cut - 10) div 6)"
      and r: "let off = 10 + 6 * length set1
          in if off + 2 \<le> length ?cut
             then length set2 = min (u16_at ?cut off) ((length ?cut - (off + 2)) div 6) \<and>
                  (\<forall>j < length set2.
                     \<exists>obj. parse_oam_attrs (u16_at ?cut (off + 2 + 6 * j))
                              (u16_at ?cut (off + 2 + 6 * j + 2))
                              (u16_at ?cut (off + 2 + 6 * j + 4)) = Inr obj \<and>
                           set2 ! j = obj\<lparr> obj_set := Some 2, obj_index := Some j \<rparr>)
             else set2 = []"
      by blast
    have l1: "length set1 = 1" using l n by (simp add: u16_at_def)
    have "set2 = []" using r by (simp add: l1)
    then show ?thesis using p l1 by auto
  qed
  show ?thesis using a b c by blast
qed

subsection \<open>reconstruct_portrait\<close>

lemma load_ds_palette_Nil: "load_ds_palette [] = Inr []"
  by (simp add: load_ds_palette_def load_ds_palette_loop.simps)

lemma parse_empty_document:
  "\<exists>header. parse_custom_oam_format (replicate 10 0) = Inr (header, [], [])"
proof -
  have n: "(replicate 10 0 :: byte list) = [0, 0, 0, 0, 0, 0, 0, 0, 0, 0]"
    by (simp add: numeral_eq_Suc)
  show ?thesis
    unfolding n parse_custom_oam_format_def
    by (simp add: unpack_H_cases[of 2 0] unpack_H_cases[of 4 2] unpack_H_cases[of 6 4]
        unpack_H_cases[of 8 6] unpack_H_cases[of 10 8] u16_at_def parse_set.simps Let_def)
qed

text \<open>
  C10. For the empty object sequence the compositor raises at the bounds, where \<^verbatim>\<open>min\<close>
  is applied to no element; no canvas is made. So does the whole reconstruction for a
  well-formed document that declares no object.
\<close>

theorem empty_sequence_raises:
  "composite tile_data palettes mult show_transparent [] = Inl ValueError \<and>
   reconstruct_portrait tile_data (replicate 10 0) [] [] use_set debug show_transparent
     = Inl ValueError"
proof -
  have c: "composite tile_data ps m show_transparent [] = Inl ValueError" for m ps
    by (simp add: composite_def py_min_def)
  obtain header where "parse_custom_oam_format (replicate 10 0) = Inr (header, [], [])"
    using parse_empty_document by blast
  then have "reconstruct_portrait tile_data (replicate 10 0) [] [] use_set debug show_transparent
     = Inl ValueError"
    by (simp add: reconstruct_portrait_def load_ds_palette_Nil c)
  with c show ?thesis by simp
qed

theorem empty_sequence_raises_witness:
  "composite [] [[], []] 4 False [] = Inl ValueError \<and>
   reconstruct_portrait [] (replicate 10 0) [] [] 1 True False = Inl ValueError"
  using empty_sequence_raises[of "[]" "[[], []]" 4 False 1 True] by simp

subsection \<open>Images and writes\<close>

lemma wf_image_new [simp]: "wf_image (Image_new w h c)"
  by (simp add: wf_image_def Image_new_def list_all_iff)

lemma Image_new_size [simp]: "im_w (Image_new w h c) = w" "im_h (Image_new w h c) = h"
  by (simp_all add: Image_new_def)

lemma getpixel_new [simp]: "x < w \<Longrightarrow> y < h \<Longrightarrow> getpixel (Image_new w h c) x y = c"
  by (simp add: getpixel_def Image_new_def)

lemma writes_refl: "wf_image img \<Longrightarrow> writes img img Map.empty"
  by (simp add: writes_def)

lemma writes_trans:
  assumes "writes a b m1" "writes b c m2"
  shows "writes a c (m1 ++ m2)"
  using assms by (auto simp: writes_def map_add_def split: option.splits)

lemma writes_wf: "writes a b m \<Longrightarrow> wf_image b \<and> im_w b = im_w a \<and> im_h b = im_h a"
  by (simp add: writes_def)

lemma writes_of_Nil [simp]: "writes_of g [] = Map.empty"
  by (simp add: writes_of_def)

lemma writes_of_snoc [simp]: "writes_of g (as @ [a]) = writes_of g as ++ g a"
  by (simp add: writes_of_def)

lemma writes_of_upt_Suc: "writes_of g [0..<Suc n] = writes_of g [0..<n] ++ g n"
  by simp

lemma writes_of_dom:
  "writes_of g as p = Some c \<Longrightarrow> \<exists>a \<in> set as. g a p = Some c"
  by (induction as rule: rev_induct) (auto simp: map_add_Some_iff)

lemma writes_of_outside:
  "(\<And>a. a \<in> set as \<Longrightarrow> g a p = None) \<Longrightarrow> writes_of g as p = None"
  by (induction as rule: rev_induct) (auto simp: map_add_def)

lemma writes_of_footprint:
  assumes "a \<in> set as" "\<And>b. b \<in> set as \<Longrightarrow> b \<noteq> a \<Longrightarrow> g b p = None"
  shows "writes_of g as p = g a p"
  using assms
proof (induction as rule: rev_induct)
  case Nil
  then show ?case by simp
next
  case (snoc b bs)
  show ?case
  proof (cases "b = a")
    case True
    show ?thesis
    proof (cases "g a p")
      case None
      have "g b' p = None" if "b' \<in> set bs" for b'
        using that snoc.prems(2)[of b'] None by (cases "b' = a") auto
      then have "writes_of g bs p = None" by (rule writes_of_outside)
      then show ?thesis using True None by (simp add: map_add_def)
    next
      case (Some c)
      then show ?thesis using True by (simp add: map_add_def)
    qed
  next
    case False
    then have "a \<in> set bs" using snoc.prems(1) by simp
    moreover have "g b p = None" using snoc.prems(2)[of b] False by simp
    ultimately show ?thesis using snoc.IH snoc.prems(2) by (simp add: map_add_def)
  qed
qed

lemma foldE_writes:
  assumes "wf_image img"
    and "\<And>a s. a \<in> set as \<Longrightarrow> wf_image s \<Longrightarrow> im_w s = im_w img \<Longrightarrow> im_h s = im_h img \<Longrightarrow>
           \<exists>s'. f a s = Inr s' \<and> writes s s' (g a)"
  shows "\<exists>img'. foldE f as img = Inr img' \<and> writes img img' (writes_of g as)"
  using assms(2)
proof (induction as rule: rev_induct)
  case Nil
  then show ?case using assms(1) by (simp add: writes_refl)
next
  case (snoc a as)
  then obtain s where s: "foldE f as img = Inr s" "writes img s (writes_of g as)" by auto
  then have "wf_image s" "im_w s = im_w img" "im_h s = im_h img"
    using writes_wf by blast+
  with snoc.prems[of a s] obtain s' where s': "f a s = Inr s'" "writes s s' (g a)" by auto
  show ?case using s s' writes_trans by (auto simp: foldE_snoc)
qed

lemma foldE_writes_count:
  assumes "wf_image img"
    and "\<And>i s. i < k \<Longrightarrow> wf_image s \<Longrightarrow> im_w s = im_w img \<Longrightarrow> im_h s = im_h img \<Longrightarrow>
           \<exists>s'. f i (s, c i) = Inr (s', c (Suc i)) \<and> writes s s' (g i)"
  shows "\<exists>img'. foldE f [0..<k] (img, c 0) = Inr (img', c k) \<and>
           writes img img' (writes_of g [0..<k])"
  using assms(2)
proof (induction k)
  case 0
  then show ?case using assms(1) by (simp add: writes_refl)
next
  case (Suc k)
  then obtain s where s: "foldE f [0..<k] (img, c 0) = Inr (s, c k)"
      "writes img s (writes_of g [0..<k])" by auto
  then have "wf_image s" "im_w s = im_w img" "im_h s = im_h img"
    using writes_wf by blast+
  with Suc.prems[of k s] obtain s' where
    s': "f k (s, c k) = Inr (s', c (Suc k))" "writes s s' (g k)" by auto
  show ?case using s s' writes_trans by (auto simp: foldE_snoc)
qed


lemma putpixel_writes:
  assumes "wf_image img" "x < im_w img" "y < im_h img"
  shows "\<exists>img'. putpixel img (int x, int y) c = Inr img' \<and> writes img img' [(x, y) \<mapsto> c]"
proof -
  let ?img' = "img\<lparr> im_rows := (im_rows img)[y := (im_rows img ! y)[x := c]] \<rparr>"
  have p: "putpixel img (int x, int y) c = Inr ?img'"
    using assms by (simp add: putpixel_def)
  have len: "length (im_rows img) = im_h img" and
    row: "\<And>j. j < im_h img \<Longrightarrow> length (im_rows img ! j) = im_w img"
    using assms(1) by (auto simp: wf_image_def list_all_length)
  have wf: "wf_image ?img'"
    using assms len row by (auto simp: wf_image_def list_all_length nth_list_update)
  have px: "getpixel ?img' x' y' = (if x' = x \<and> y' = y then c else getpixel img x' y')"
    if "x' < im_w img" "y' < im_h img" for x' y'
    using that assms len row by (auto simp: getpixel_def nth_list_update)
  show ?thesis unfolding p using wf px by (auto simp: writes_def)
qed

lemma flip_less: "v < extent \<Longrightarrow> flip flag extent v < extent"
  by (auto simp: flip_def)

lemma flip_inj:
  "v < extent \<Longrightarrow> v' < extent \<Longrightarrow> flip flag extent v = flip flag extent v' \<Longrightarrow> v = v'"
  by (auto simp: flip_def split: if_splits)

lemma flip_int:
  "v < extent \<Longrightarrow>
   (if flag \<noteq> 0 then (int extent - 1) - int v else int v) = int (flip flag extent v)"
  by (auto simp: flip_def)

text \<open>The writes of one pixel step, for the palette index found in the decoded tile.\<close>

lemma render_pixel_writes:
  assumes "wf_image img" "im_w img = wd" "im_h img = ht"
    and "length tile = 8" "length (tile ! py) = 8" "py < 8" "px < 8"
    and "tile_x + 8 \<le> wd" "tile_y + 8 \<le> ht"
  shows "\<exists>img'. render_pixel wd ht hflip vflip palette show_transparent tile tile_x tile_y py px img
                 = Inr img' \<and>
           writes img img'
             (let idx = tile ! py ! px
              in if (\<not> show_transparent \<and> idx = 0) \<or> length palette \<le> idx then Map.empty
                 else [(flip hflip wd (tile_x + px), flip vflip ht (tile_y + py)) \<mapsto>
                         (case palette ! idx of (r, g, b) \<Rightarrow> (r, g, b, 255))])"
proof -
  define idx where "idx = tile ! py ! px"
  have g: "list_get tile py = Inr (tile ! py)" "list_get (tile ! py) px = Inr idx"
    using assms by (simp_all add: list_get_def idx_def)
  show ?thesis
  proof (cases "(\<not> show_transparent \<and> idx = 0) \<or> length palette \<le> idx")
    case True
    then have "render_pixel wd ht hflip vflip palette show_transparent tile tile_x tile_y py px img
                 = Inr img"
      by (auto simp: render_pixel_def g)
    then show ?thesis using True assms(1) by (simp add: idx_def[symmetric] writes_refl)
  next
    case False
    have xb: "tile_x + px < wd" and yb: "tile_y + py < ht" using assms by simp_all
    have fx: "(if hflip \<noteq> 0 then (int wd - 1) - (int tile_x + int px) else int tile_x + int px)
                = int (flip hflip wd (tile_x + px))"
      using xb by (auto simp: flip_def)
    have fy: "(if vflip \<noteq> 0 then (int ht - 1) - (int tile_y + int py) else int tile_y + int py)
                = int (flip vflip ht (tile_y + py))"
      using yb by (auto simp: flip_def)
    have r: "render_pixel wd ht hflip vflip palette show_transparent tile tile_x tile_y py px img
               = putpixel img (int (flip hflip wd (tile_x + px)), int (flip vflip ht (tile_y + py)))
                   (case palette ! idx of (r, g, b) \<Rightarrow> (r, g, b, 255))"
      using False xb yb by (auto simp: render_pixel_def g Let_def flip_def diff_diff_eq)
    have "flip hflip wd (tile_x + px) < im_w img" "flip vflip ht (tile_y + py) < im_h img"
      using xb yb assms(2,3) by (simp_all add: flip_less)
    from putpixel_writes[OF assms(1) this] show ?thesis
      using False unfolding r by (auto simp: idx_def[symmetric])
  qed
qed

lemma writes_of_empty:
  "(\<And>a. a \<in> set as \<Longrightarrow> g a = Map.empty) \<Longrightarrow> writes_of g as = Map.empty"
  by (rule ext) (simp add: writes_of_outside)

lemma writes_of_cong:
  "(\<And>a. a \<in> set as \<Longrightarrow> g a = g' a) \<Longrightarrow> writes_of g as = writes_of g' as"
  by (induction as rule: rev_induct) simp_all

lemma slice_nth:
  "off + n \<le> length xs \<Longrightarrow> j < n \<Longrightarrow> py_slice xs off (off + n) ! j = xs ! (off + j)"
  by (simp add: py_slice_def)

lemma slice_length: "off + n \<le> length xs \<Longrightarrow> length (py_slice xs off (off + n)) = n"
  by (simp add: py_slice_def)

lemma decoded_tile_entry:
  assumes "off + 32 \<le> length tile_data"
  shows "\<exists>tile. decode_4bpp_tile (py_slice tile_data off (off + 32)) = Inr tile \<and>
           length tile = 8 \<and> (\<forall>y < 8. length (tile ! y) = 8) \<and>
           (\<forall>y < 8. \<forall>x < 8. tile ! y ! x =
              (let k = y * 8 + x; byte = unat (tile_data ! (off + k div 2))
               in if even k then byte mod 16 else byte div 16))"
proof -
  let ?s = "py_slice tile_data off (off + 32)"
  have len: "length ?s = 32" using assms by (rule slice_length)
  define tile where "tile = map (\<lambda>y. map (\<lambda>x. tile_pixels ?s ! (y * 8 + x)) [0..<8]) [0..<8]"
  have d: "decode_4bpp_tile ?s = Inr tile"
    using decode_4bpp_tile_ok[OF len] by (simp only: tile_def)
  have l: "length tile = 8" "\<forall>y < 8. length (tile ! y) = 8" by (simp_all add: tile_def)
  have v: "tile ! y ! x =
              (let k = y * 8 + x; byte = unat (tile_data ! (off + k div 2))
               in if even k then byte mod 16 else byte div 16)" if "y < 8" "x < 8" for x y
  proof -
    define k where "k = y * 8 + x"
    have k: "k < 64" using that by (simp add: k_def)
    then have "k div 2 < 32" by simp
    then have s: "?s ! (k div 2) = tile_data ! (off + k div 2)"
      using assms by (intro slice_nth)
    have "tile ! y ! x = tile_pixels ?s ! k" using that by (simp add: tile_def k_def)
    also have "\<dots> = (if even k then unat (?s ! (k div 2)) mod 16 else unat (?s ! (k div 2)) div 16)"
      using k len by (intro tile_pixels_nth) simp
    finally have "tile ! y ! x =
        (if even k then unat (tile_data ! (off + k div 2)) mod 16
         else unat (tile_data ! (off + k div 2)) div 16)"
      by (simp only: s)
    then show ?thesis unfolding Let_def k_def .
  qed
  show ?thesis using d l v by blast
qed


lemma cell_fits:
  assumes "t < n div 8"
  shows "t * 8 + 8 \<le> (n::nat)"
proof -
  have "(t + 1) * 8 \<le> (n div 8) * 8" using assms by simp
  also have "\<dots> \<le> n" by simp
  finally show ?thesis by simp
qed

lemma render_tile_writes:
  assumes "wf_image img" "im_w img = width obj" "im_h img = height obj"
    and "ty < height obj div 8" "tx < width obj div 8"
  shows "\<exists>img'. render_tile tile_data (width obj) (height obj) (h_flip obj) (v_flip obj) palette
                  show_transparent (tile_number obj * mult) ty tx
                  (img, ty * (width obj div 8) + tx)
                = Inr (img', Suc (ty * (width obj div 8) + tx)) \<and>
           writes img img'
             (writes_of (\<lambda>py. writes_of
                (sprite_writes tile_data obj palette mult show_transparent ty tx py) [0..<8])
                [0..<8])"
proof -
  define n where "n = ty * (width obj div 8) + tx"
  define idx where "idx = tile_number obj * mult + n"
  show ?thesis
  proof (cases "length tile_data < idx * 32 + 32")
    case True
    have r: "render_tile tile_data (width obj) (height obj) (h_flip obj) (v_flip obj) palette
               show_transparent (tile_number obj * mult) ty tx (img, n) = Inr (img, Suc n)"
      using True by (simp add: render_tile_def Let_def idx_def)
    have "sprite_writes tile_data obj palette mult show_transparent ty tx py px = Map.empty"
      for py px
      using True by (simp add: sprite_writes_def cell_pixel_def idx_def n_def)
    then have "writes_of (\<lambda>py. writes_of
                (sprite_writes tile_data obj palette mult show_transparent ty tx py) [0..<8])
                [0..<8] = Map.empty"
      by (simp add: writes_of_empty)
    then show ?thesis using r assms(1) by (simp add: n_def writes_refl)
  next
    case False
    then have fit: "idx * 32 + 32 \<le> length tile_data" by simp
    from decoded_tile_entry[OF fit] obtain tile where
      d: "decode_4bpp_tile (py_slice tile_data (idx * 32) (idx * 32 + 32)) = Inr tile"
      and l: "length tile = 8" "\<forall>y < 8. length (tile ! y) = 8"
      and v: "\<forall>y < 8. \<forall>x < 8. tile ! y ! x =
              (let k = y * 8 + x; byte = unat (tile_data ! (idx * 32 + k div 2))
               in if even k then byte mod 16 else byte div 16)"
      by auto
    have xfit: "tx * 8 + 8 \<le> width obj" and yfit: "ty * 8 + 8 \<le> height obj"
      using assms(4,5) by (simp_all add: cell_fits)
    have px_step: "\<exists>s'. render_pixel (width obj) (height obj) (h_flip obj) (v_flip obj) palette
                          show_transparent tile (tx * 8) (ty * 8) py px s = Inr s' \<and>
                        writes s s'
                          (sprite_writes tile_data obj palette mult show_transparent ty tx py px)"
      if "py < 8" "px < 8" "wf_image s" "im_w s = width obj" "im_h s = height obj" for py px s
    proof -
      have lp: "length (tile ! py) = 8" using l(2) that(1) by simp
      have e: "tile ! py ! px =
              (let k = py * 8 + px; byte = unat (tile_data ! (idx * 32 + k div 2))
               in if even k then byte mod 16 else byte div 16)"
        using v that by simp
      have m: "(let i = tile ! py ! px
              in if (\<not> show_transparent \<and> i = 0) \<or> length palette \<le> i then Map.empty
                 else [(flip (h_flip obj) (width obj) (tx * 8 + px),
                        flip (v_flip obj) (height obj) (ty * 8 + py)) \<mapsto>
                         (case palette ! i of (r, g, b) \<Rightarrow> (r, g, b, 255))])
            = sprite_writes tile_data obj palette mult show_transparent ty tx py px"
        using False unfolding e
        by (auto simp: sprite_writes_def cell_pixel_def idx_def n_def Let_def split: prod.splits)
      from render_pixel_writes[OF that(3,4,5) l(1) lp that(1,2) xfit yfit,
          of "h_flip obj" "v_flip obj" palette show_transparent]
      show ?thesis unfolding m .
    qed
    have py_step: "\<exists>s'. foldE (render_pixel (width obj) (height obj) (h_flip obj) (v_flip obj)
                          palette show_transparent tile (tx * 8) (ty * 8) py) [0..<8] s = Inr s' \<and>
                        writes s s' (writes_of
                          (sprite_writes tile_data obj palette mult show_transparent ty tx py)
                          [0..<8])"
      if "py < 8" "wf_image s" "im_w s = width obj" "im_h s = height obj" for py s
      by (rule foldE_writes[OF that(2)]) (use that px_step[OF that(1)] in auto)
    have "\<exists>img'. foldE (\<lambda>py. foldE (render_pixel (width obj) (height obj) (h_flip obj)
                     (v_flip obj) palette show_transparent tile (tx * 8) (ty * 8) py) [0..<8])
                   [0..<8] img = Inr img' \<and>
                 writes img img' (writes_of (\<lambda>py. writes_of
                   (sprite_writes tile_data obj palette mult show_transparent ty tx py) [0..<8])
                   [0..<8])"
      by (rule foldE_writes[OF assms(1)]) (use assms(2,3) py_step in auto)
    then obtain img' where
      f: "foldE (\<lambda>py. foldE (render_pixel (width obj) (height obj) (h_flip obj)
                     (v_flip obj) palette show_transparent tile (tx * 8) (ty * 8) py) [0..<8])
                   [0..<8] img = Inr img'"
      and w: "writes img img' (writes_of (\<lambda>py. writes_of
                   (sprite_writes tile_data obj palette mult show_transparent ty tx py) [0..<8])
                   [0..<8])"
      by blast
    have "render_tile tile_data (width obj) (height obj) (h_flip obj) (v_flip obj) palette
               show_transparent (tile_number obj * mult) ty tx (img, n) = Inr (img', Suc n)"
      using False d f by (simp add: render_tile_def Let_def idx_def)
    then show ?thesis using w by (auto simp: n_def)
  qed
qed


lemma render_sprite_writes:
  "\<exists>img. render_sprite tile_data obj palette mult show_transparent = Inr img \<and>
     writes (Image_new (width obj) (height obj) (background show_transparent)) img
       (writes_of (\<lambda>ty. writes_of (\<lambda>tx. writes_of (\<lambda>py. writes_of
          (sprite_writes tile_data obj palette mult show_transparent ty tx py) [0..<8])
          [0..<8]) [0..<width obj div 8]) [0..<height obj div 8])"
proof -
  define tw where "tw = width obj div 8"
  define th where "th = height obj div 8"
  define img0 where "img0 = Image_new (width obj) (height obj) (background show_transparent)"
  define step where
    "step = render_tile tile_data (width obj) (height obj) (h_flip obj) (v_flip obj) palette
              show_transparent (tile_number obj * mult)"
  define cellw where
    "cellw = (\<lambda>ty tx. writes_of (\<lambda>py. writes_of
                (sprite_writes tile_data obj palette mult show_transparent ty tx py) [0..<8])
                [0..<8])"
  have wf0: "wf_image img0" and d0: "im_w img0 = width obj" "im_h img0 = height obj"
    by (simp_all add: img0_def)
  have cell: "\<exists>s'. step ty tx (s, ty * tw + tx) = Inr (s', ty * tw + Suc tx) \<and>
                writes s s' (cellw ty tx)"
    if "ty < th" "tx < tw" "wf_image s" "im_w s = width obj" "im_h s = height obj" for ty tx s
    using render_tile_writes[OF that(3,4,5), of ty tx tile_data palette show_transparent mult] that(1,2)
    by (simp add: step_def cellw_def tw_def th_def)
  have row: "\<exists>s'. foldE (step ty) [0..<tw] (s, ty * tw) = Inr (s', Suc ty * tw) \<and>
                writes s s' (writes_of (cellw ty) [0..<tw])"
    if "ty < th" "wf_image s" "im_w s = width obj" "im_h s = height obj" for ty s
  proof -
    have "\<exists>s'. foldE (step ty) [0..<tw] (s, ty * tw + 0) = Inr (s', ty * tw + tw) \<and>
            writes s s' (writes_of (cellw ty) [0..<tw])"
      by (rule foldE_writes_count[OF that(2), where c = "\<lambda>tx. ty * tw + tx"])
        (use that cell in auto)
    then show ?thesis by (simp add: add.commute)
  qed
  have "\<exists>img. foldE (\<lambda>ty. foldE (step ty) [0..<tw]) [0..<th] (img0, 0 * tw) = Inr (img, th * tw) \<and>
          writes img0 img (writes_of (\<lambda>ty. writes_of (cellw ty) [0..<tw]) [0..<th])"
    by (rule foldE_writes_count[OF wf0, where c = "\<lambda>ty. ty * tw"]) (use d0 row in auto)
  then obtain img where
    f: "foldE (\<lambda>ty. foldE (step ty) [0..<tw]) [0..<th] (img0, 0) = Inr (img, th * tw)"
    and w: "writes img0 img (writes_of (\<lambda>ty. writes_of (cellw ty) [0..<tw]) [0..<th])"
    by auto
  have i: "(if show_transparent then Image_new (width obj) (height obj) (255, 255, 255, 255)
            else Image_new (width obj) (height obj) (0, 0, 0, 0)) = img0"
    by (simp add: img0_def background_def)
  have "render_sprite tile_data obj palette mult show_transparent = Inr img"
    unfolding render_sprite_def Let_def i
    using f by (simp add: step_def tw_def th_def)
  then show ?thesis using w by (simp add: img0_def cellw_def tw_def th_def)
qed


lemma sprite_writes_SomeD:
  assumes "sprite_writes tile_data obj palette mult show_transparent ty tx py px p = Some c"
  shows "p = (flip (h_flip obj) (width obj) (tx * 8 + px),
              flip (v_flip obj) (height obj) (ty * 8 + py)) \<and>
         cell_pixel tile_data palette show_transparent
           (tile_number obj * mult + (ty * (width obj div 8) + tx)) py px = Some c"
  using assms by (auto simp: sprite_writes_def split: option.splits if_splits)

lemma sprite_writes_at:
  "sprite_writes tile_data obj palette mult show_transparent ty tx py px
     (flip (h_flip obj) (width obj) (tx * 8 + px), flip (v_flip obj) (height obj) (ty * 8 + py))
   = cell_pixel tile_data palette show_transparent
       (tile_number obj * mult + (ty * (width obj div 8) + tx)) py px"
  by (simp add: sprite_writes_def split: option.splits)

lemma cell_coord_inj:
  assumes "t < n div 8" "t' < n div 8" "q < 8" "q' < 8"
    and "flip flag n (t * 8 + q) = flip flag n (t' * 8 + q')"
  shows "t = t' \<and> q = (q'::nat)"
proof -
  have "t * 8 + q < n" "t' * 8 + q' < n"
    using cell_fits[OF assms(1)] cell_fits[OF assms(2)] assms(3,4) by simp_all
  then have "t * 8 + q = t' * 8 + q'" using assms(5) by (rule flip_inj)
  then show ?thesis using assms(3,4) by arith
qed

lemma cell_pixel_opaque:
  "cell_pixel tile_data palette show_transparent i py px = Some c \<Longrightarrow> alpha c = 255"
  by (auto simp: cell_pixel_def alpha_def Let_def split: if_splits prod.splits)

lemma sprite_map_dom:
  assumes "writes_of (\<lambda>ty. writes_of (\<lambda>tx. writes_of (\<lambda>py. writes_of
          (sprite_writes tile_data obj palette mult show_transparent ty tx py) [0..<8])
          [0..<8]) [0..<tw]) [0..<th] p = Some c"
  shows "\<exists>ty tx py px. ty < th \<and> tx < tw \<and> py < 8 \<and> px < 8 \<and>
           sprite_writes tile_data obj palette mult show_transparent ty tx py px p = Some c"
proof -
  from writes_of_dom[OF assms] obtain ty where ty: "ty < th"
    and a: "writes_of (\<lambda>tx. writes_of (\<lambda>py. writes_of
          (sprite_writes tile_data obj palette mult show_transparent ty tx py) [0..<8])
          [0..<8]) [0..<tw] p = Some c" by auto
  from writes_of_dom[OF a] obtain tx where tx: "tx < tw"
    and b: "writes_of (\<lambda>py. writes_of
          (sprite_writes tile_data obj palette mult show_transparent ty tx py) [0..<8])
          [0..<8] p = Some c" by auto
  from writes_of_dom[OF b] obtain py where py: "py < 8"
    and c: "writes_of (sprite_writes tile_data obj palette mult show_transparent ty tx py)
          [0..<8] p = Some c" by auto
  from writes_of_dom[OF c] obtain px where "px < 8"
    "sprite_writes tile_data obj palette mult show_transparent ty tx py px p = Some c" by auto
  with ty tx py show ?thesis by blast
qed

lemma sprite_map_lookup:
  assumes "ty < height obj div 8" "tx < width obj div 8" "py < 8" "px < 8"
  shows "writes_of (\<lambda>ty. writes_of (\<lambda>tx. writes_of (\<lambda>py. writes_of
          (sprite_writes tile_data obj palette mult show_transparent ty tx py) [0..<8])
          [0..<8]) [0..<width obj div 8]) [0..<height obj div 8]
          (flip (h_flip obj) (width obj) (tx * 8 + px),
           flip (v_flip obj) (height obj) (ty * 8 + py))
         = cell_pixel tile_data palette show_transparent
             (tile_number obj * mult + (ty * (width obj div 8) + tx)) py px"
proof -
  define sw where "sw = sprite_writes tile_data obj palette mult show_transparent"
  define p where "p = (flip (h_flip obj) (width obj) (tx * 8 + px),
                       flip (v_flip obj) (height obj) (ty * 8 + py))"
  have only: "ty' = ty \<and> tx' = tx \<and> py' = py \<and> px' = px"
    if "sw ty' tx' py' px' p = Some c" "ty' < height obj div 8" "tx' < width obj div 8"
      "py' < 8" "px' < 8" for ty' tx' py' px' c
  proof -
    from sprite_writes_SomeD[OF that(1)[unfolded sw_def]]
    have e: "flip (h_flip obj) (width obj) (tx * 8 + px)
               = flip (h_flip obj) (width obj) (tx' * 8 + px')"
      "flip (v_flip obj) (height obj) (ty * 8 + py)
               = flip (v_flip obj) (height obj) (ty' * 8 + py')"
      by (simp_all add: p_def)
    from cell_coord_inj[OF assms(2) that(3) assms(4) that(5) e(1)]
      cell_coord_inj[OF assms(1) that(2) assms(3) that(4) e(2)]
    show ?thesis by simp
  qed
  have l1: "writes_of (sw ty tx py) [0..<8] p = sw ty tx py px p"
  proof (rule writes_of_footprint)
    show "px \<in> set [0..<8]" using assms(4) by simp
  next
    fix b assume b: "b \<in> set [0..<8]" "b \<noteq> px"
    show "sw ty tx py b p = None"
    proof (cases "sw ty tx py b p")
      case (Some c)
      from only[OF Some assms(1,2,3)] b show ?thesis by simp
    qed simp
  qed
  have l2: "writes_of (\<lambda>py. writes_of (sw ty tx py) [0..<8]) [0..<8] p
              = writes_of (sw ty tx py) [0..<8] p"
  proof (rule writes_of_footprint)
    show "py \<in> set [0..<8]" using assms(3) by simp
  next
    fix b assume b: "b \<in> set [0..<8]" "b \<noteq> py"
    show "writes_of (sw ty tx b) [0..<8] p = None"
    proof (cases "writes_of (sw ty tx b) [0..<8] p")
      case (Some c)
      from writes_of_dom[OF Some] obtain px' where "px' < 8" "sw ty tx b px' p = Some c" by auto
      from only[OF this(2) assms(1,2) _ this(1)] b show ?thesis by simp
    qed simp
  qed
  have l3: "writes_of (\<lambda>tx. writes_of (\<lambda>py. writes_of (sw ty tx py) [0..<8]) [0..<8])
              [0..<width obj div 8] p
              = writes_of (\<lambda>py. writes_of (sw ty tx py) [0..<8]) [0..<8] p"
  proof (rule writes_of_footprint)
    show "tx \<in> set [0..<width obj div 8]" using assms(2) by simp
  next
    fix b assume b: "b \<in> set [0..<width obj div 8]" "b \<noteq> tx"
    show "writes_of (\<lambda>py. writes_of (sw ty b py) [0..<8]) [0..<8] p = None"
    proof (cases "writes_of (\<lambda>py. writes_of (sw ty b py) [0..<8]) [0..<8] p")
      case (Some c)
      from writes_of_dom[OF Some] obtain py' where py': "py' < 8"
        "writes_of (sw ty b py') [0..<8] p = Some c" by auto
      from writes_of_dom[OF py'(2)] obtain px' where "px' < 8" "sw ty b py' px' p = Some c"
        by auto
      from only[OF this(2) assms(1) _ py'(1) this(1)] b show ?thesis by simp
    qed simp
  qed
  have l4: "writes_of (\<lambda>ty. writes_of (\<lambda>tx. writes_of (\<lambda>py. writes_of (sw ty tx py) [0..<8])
              [0..<8]) [0..<width obj div 8]) [0..<height obj div 8] p
              = writes_of (\<lambda>tx. writes_of (\<lambda>py. writes_of (sw ty tx py) [0..<8]) [0..<8])
              [0..<width obj div 8] p"
  proof (rule writes_of_footprint)
    show "ty \<in> set [0..<height obj div 8]" using assms(1) by simp
  next
    fix b assume b: "b \<in> set [0..<height obj div 8]" "b \<noteq> ty"
    show "writes_of (\<lambda>tx. writes_of (\<lambda>py. writes_of (sw b tx py) [0..<8]) [0..<8])
              [0..<width obj div 8] p = None"
    proof (cases "writes_of (\<lambda>tx. writes_of (\<lambda>py. writes_of (sw b tx py) [0..<8]) [0..<8])
              [0..<width obj div 8] p")
      case (Some c)
      from writes_of_dom[OF Some] obtain tx' where tx': "tx' < width obj div 8"
        "writes_of (\<lambda>py. writes_of (sw b tx' py) [0..<8]) [0..<8] p = Some c" by auto
      from writes_of_dom[OF tx'(2)] obtain py' where py': "py' < 8"
        "writes_of (sw b tx' py') [0..<8] p = Some c" by auto
      from writes_of_dom[OF py'(2)] obtain px' where "px' < 8" "sw b tx' py' px' p = Some c"
        by auto
      from only[OF this(2) _ tx'(1) py'(1) this(1)] b show ?thesis by simp
    qed simp
  qed
  have "sw ty tx py px p = cell_pixel tile_data palette show_transparent
             (tile_number obj * mult + (ty * (width obj div 8) + tx)) py px"
    unfolding sw_def p_def by (rule sprite_writes_at)
  then show ?thesis using l1 l2 l3 l4 by (simp add: sw_def p_def)
qed

lemma writes_pixel:
  "writes a b m \<Longrightarrow> x < im_w a \<Longrightarrow> y < im_h a \<Longrightarrow>
   getpixel b x y = (case m (x, y) of None \<Rightarrow> getpixel a x y | Some c \<Rightarrow> c)"
  by (simp add: writes_def)

lemma render_sprite_spec:
  "\<exists>img. render_sprite tile_data obj palette mult show_transparent = Inr img \<and>
     wf_image img \<and> im_w img = width obj \<and> im_h img = height obj \<and>
     (\<forall>ty tx py px. ty < height obj div 8 \<and> tx < width obj div 8 \<and> py < 8 \<and> px < 8 \<longrightarrow>
        getpixel img (flip (h_flip obj) (width obj) (tx * 8 + px))
                     (flip (v_flip obj) (height obj) (ty * 8 + py))
          = (case cell_pixel tile_data palette show_transparent
                    (tile_number obj * mult + (ty * (width obj div 8) + tx)) py px of
               None \<Rightarrow> background show_transparent | Some c \<Rightarrow> c)) \<and>
     (\<forall>x y. x < width obj \<and> y < height obj \<longrightarrow>
        getpixel img x y = background show_transparent \<or> alpha (getpixel img x y) = 255)"
proof -
  define M where "M = writes_of (\<lambda>ty. writes_of (\<lambda>tx. writes_of (\<lambda>py. writes_of
          (sprite_writes tile_data obj palette mult show_transparent ty tx py) [0..<8])
          [0..<8]) [0..<width obj div 8]) [0..<height obj div 8]"
  define img0 where "img0 = Image_new (width obj) (height obj) (background show_transparent)"
  from render_sprite_writes[of tile_data obj palette mult show_transparent]
  obtain img where r: "render_sprite tile_data obj palette mult show_transparent = Inr img"
    and w: "writes img0 img M"
    unfolding M_def img0_def by blast
  have wf: "wf_image img" "im_w img = width obj" "im_h img = height obj"
    using writes_wf[OF w] by (simp_all add: img0_def)
  have px: "getpixel img x y = (case M (x, y) of None \<Rightarrow> background show_transparent | Some c \<Rightarrow> c)"
    if "x < width obj" "y < height obj" for x y
  proof -
    have "getpixel img0 x y = background show_transparent"
      using that by (simp add: img0_def)
    then show ?thesis
      using writes_pixel[OF w, of x y] that by (simp add: img0_def split: option.splits)
  qed
  have cells: "getpixel img (flip (h_flip obj) (width obj) (tx * 8 + px))
                     (flip (v_flip obj) (height obj) (ty * 8 + py))
          = (case cell_pixel tile_data palette show_transparent
                    (tile_number obj * mult + (ty * (width obj div 8) + tx)) py px of
               None \<Rightarrow> background show_transparent | Some c \<Rightarrow> c)"
    if "ty < height obj div 8" "tx < width obj div 8" "py < 8" "px < 8" for ty tx py px
  proof -
    have "tx * 8 + px < width obj" "ty * 8 + py < height obj"
      using cell_fits[OF that(1)] cell_fits[OF that(2)] that(3,4) by simp_all
    then have "flip (h_flip obj) (width obj) (tx * 8 + px) < width obj"
      "flip (v_flip obj) (height obj) (ty * 8 + py) < height obj"
      by (simp_all add: flip_less)
    from px[OF this] show ?thesis
      unfolding M_def sprite_map_lookup[OF that] .
  qed
  have op: "getpixel img x y = background show_transparent \<or> alpha (getpixel img x y) = 255"
    if "x < width obj" "y < height obj" for x y
  proof (cases "M (x, y)")
    case None
    then show ?thesis using px[OF that] by simp
  next
    case (Some c)
    from sprite_map_dom[OF Some[unfolded M_def]] obtain ty tx py px where
      "sprite_writes tile_data obj palette mult show_transparent ty tx py px (x, y) = Some c"
      by blast
    from sprite_writes_SomeD[OF this] have "alpha c = 255" using cell_pixel_opaque by blast
    then show ?thesis using px[OF that] Some by simp
  qed
  show ?thesis using r wf cells op by blast
qed

lemma render_sprite_alpha:
  assumes "render_sprite tile_data obj palette mult show_transparent = Inr img"
    "x < width obj" "y < height obj"
  shows "alpha (getpixel img x y) = 0 \<or> alpha (getpixel img x y) = 255"
proof -
  have "getpixel img x y = background show_transparent \<or> alpha (getpixel img x y) = 255"
    using render_sprite_spec[of tile_data obj palette mult show_transparent] assms by auto
  then show ?thesis
  proof
    assume "getpixel img x y = background show_transparent"
    then show ?thesis by (simp add: background_def alpha_def)
  next
    assume "alpha (getpixel img x y) = 255"
    then show ?thesis by simp
  qed
qed

lemma render_sprite_size:
  assumes "render_sprite tile_data obj palette mult show_transparent = Inr img"
  shows "wf_image img \<and> im_w img = width obj \<and> im_h img = height obj"
  using render_sprite_spec[of tile_data obj palette mult show_transparent] assms by auto

lemma image_eqI:
  fixes a b :: image
  assumes "wf_image a" "wf_image b" "im_w a = im_w b" "im_h a = im_h b"
    and "\<And>x y. x < im_w a \<Longrightarrow> y < im_h a \<Longrightarrow> getpixel a x y = getpixel b x y"
  shows "a = b"
proof -
  have la: "length (im_rows a) = im_h a" and lb: "length (im_rows b) = im_h a"
    and ra: "\<And>j. j < im_h a \<Longrightarrow> length (im_rows a ! j) = im_w a"
    and rb: "\<And>j. j < im_h a \<Longrightarrow> length (im_rows b ! j) = im_w a"
    using assms(1,2,3,4) by (auto simp: wf_image_def list_all_length)
  have "im_rows a = im_rows b"
  proof (rule nth_equalityI)
    show "length (im_rows a) = length (im_rows b)" using la lb by simp
  next
    fix j assume "j < length (im_rows a)"
    then have j: "j < im_h a" using la by simp
    show "im_rows a ! j = im_rows b ! j"
    proof (rule nth_equalityI)
      show "length (im_rows a ! j) = length (im_rows b ! j)" using ra[OF j] rb[OF j] by simp
    next
      fix i assume "i < length (im_rows a ! j)"
      then have "i < im_w a" using ra[OF j] by simp
      from assms(5)[OF this j] show "im_rows a ! j ! i = im_rows b ! j ! i"
        by (simp add: getpixel_def)
    qed
  qed
  then show ?thesis using assms(3,4) by simp
qed

lemma render_sprite_no_tiles:
  "render_sprite [] obj palette mult show_transparent
     = Inr (Image_new (width obj) (height obj) (background show_transparent))"
proof -
  define img0 where "img0 = Image_new (width obj) (height obj) (background show_transparent)"
  have e: "sprite_writes [] obj palette mult show_transparent ty tx py px = Map.empty"
    for ty tx py px
    by (simp add: sprite_writes_def cell_pixel_def)
  have "writes_of (\<lambda>ty. writes_of (\<lambda>tx. writes_of (\<lambda>py. writes_of
          (sprite_writes [] obj palette mult show_transparent ty tx py) [0..<8])
          [0..<8]) [0..<width obj div 8]) [0..<height obj div 8] = Map.empty"
    by (simp add: e writes_of_empty)
  with render_sprite_writes[of "[]" obj palette mult show_transparent]
  obtain img where r: "render_sprite [] obj palette mult show_transparent = Inr img"
    and w: "writes img0 img Map.empty"
    unfolding img0_def by auto
  have "img = img0"
    using w by (intro image_eqI) (auto simp: writes_def img0_def)
  then show ?thesis using r by (simp add: img0_def)
qed

subsection \<open>Tile cells beyond the tile buffer\<close>

text \<open>
  C7, as the code has it. Rendering a sprite never raises. For every tile cell of the
  object, numbered row by row from the object's first tile, and every pixel of the cell:
  when the cell's byte offset plus 32 exceeds the length of the tile buffer, the pixel
  keeps the colour the sprite image started with, which is fully transparent when
  \<open>show_transparent\<close> is off and opaque white when it is on; otherwise the pixel is
  decoded from the tile with that index, whatever happened to the cells before it.
\<close>

theorem tile_cells_beyond_buffer:
  "\<exists>img. render_sprite tile_data obj palette mult show_transparent = Inr img \<and>
     im_w img = width obj \<and> im_h img = height obj \<and>
     (\<forall>ty tx py px. ty < height obj div 8 \<and> tx < width obj div 8 \<and> py < 8 \<and> px < 8 \<longrightarrow>
        getpixel img (flip (h_flip obj) (width obj) (tx * 8 + px))
                     (flip (v_flip obj) (height obj) (ty * 8 + py))
          = (let tile_index = tile_number obj * mult + (ty * (width obj div 8) + tx)
             in if length tile_data < tile_index * 32 + 32
                then (if show_transparent then (255, 255, 255, 255) else (0, 0, 0, 0))
                else case cell_pixel tile_data palette show_transparent tile_index py px of
                       None \<Rightarrow> (if show_transparent then (255, 255, 255, 255) else (0, 0, 0, 0))
                     | Some c \<Rightarrow> c))"
proof -
  from render_sprite_spec[of tile_data obj palette mult show_transparent]
  obtain img where r: "render_sprite tile_data obj palette mult show_transparent = Inr img"
    and d: "im_w img = width obj" "im_h img = height obj"
    and c: "\<And>ty tx py px. ty < height obj div 8 \<Longrightarrow> tx < width obj div 8 \<Longrightarrow> py < 8 \<Longrightarrow>
              px < 8 \<Longrightarrow>
        getpixel img (flip (h_flip obj) (width obj) (tx * 8 + px))
                     (flip (v_flip obj) (height obj) (ty * 8 + py))
          = (case cell_pixel tile_data palette show_transparent
                    (tile_number obj * mult + (ty * (width obj div 8) + tx)) py px of
               None \<Rightarrow> background show_transparent | Some c \<Rightarrow> c)"
    by blast
  have m: "getpixel img (flip (h_flip obj) (width obj) (tx * 8 + px))
                     (flip (v_flip obj) (height obj) (ty * 8 + py))
          = (let tile_index = tile_number obj * mult + (ty * (width obj div 8) + tx)
             in if length tile_data < tile_index * 32 + 32
                then background show_transparent
                else case cell_pixel tile_data palette show_transparent tile_index py px of
                       None \<Rightarrow> background show_transparent
                     | Some c \<Rightarrow> c)"
    if "ty < height obj div 8" "tx < width obj div 8" "py < 8" "px < 8" for ty tx py px
  proof (cases "length tile_data
                  < (tile_number obj * mult + (ty * (width obj div 8) + tx)) * 32 + 32")
    case True
    then have "cell_pixel tile_data palette show_transparent
                 (tile_number obj * mult + (ty * (width obj div 8) + tx)) py px = None"
      by (simp add: cell_pixel_def)
    then show ?thesis using c[OF that] True by (simp only: Let_def if_True option.case)
  next
    case False
    then show ?thesis using c[OF that] by (simp only: Let_def if_False)
  qed
  show ?thesis using r d m unfolding background_def by blast
qed

lemma parse_wide_object:
  "parse_oam_attrs 0x4000 0 1 =
     Inr \<lparr> y_coord = 0, rot_scaling = 0, double_size = 0, obj_disable = 0, obj_mode = 0,
           mosaic = 0, colors_palettes = 0, obj_shape = 1, x_coord = 0, rot_scaling_param = 0,
           h_flip = 0, v_flip = 0, obj_size = 0, tile_number = 1, priority = 0,
           palette_number = 0, width = 16, height = 8, obj_set = None, obj_index = None \<rparr>"
  by (simp add: parse_oam_attrs_def dict_get_def SIZE_TABLE_def wrap_ds_coordinate_def Let_def)

theorem tile_cells_beyond_buffer_witness:
  "\<exists>obj img. parse_oam_attrs 0x4000 0 1 = Inr obj \<and>
     render_sprite (replicate 64 0x11) obj [(0, 0, 0), (255, 0, 0)] 1 False = Inr img \<and>
     getpixel img 0 0 = (255, 0, 0, 255) \<and> getpixel img 8 0 = (0, 0, 0, 0)"
proof -
  define obj where "obj = \<lparr> y_coord = 0, rot_scaling = 0, double_size = 0, obj_disable = 0,
           obj_mode = 0, mosaic = 0, colors_palettes = 0, obj_shape = 1, x_coord = 0,
           rot_scaling_param = 0, h_flip = 0, v_flip = 0, obj_size = 0, tile_number = 1,
           priority = 0, palette_number = 0, width = 16, height = 8, obj_set = None,
           obj_index = None \<rparr>"
  from tile_cells_beyond_buffer[of "replicate 64 0x11" obj "[(0, 0, 0), (255, 0, 0)]" 1 False]
  obtain img where
    r: "render_sprite (replicate 64 0x11) obj [(0, 0, 0), (255, 0, 0)] 1 False = Inr img"
    and c: "\<forall>ty tx py px. ty < height obj div 8 \<and> tx < width obj div 8 \<and> py < 8 \<and> px < 8 \<longrightarrow>
        getpixel img (flip (h_flip obj) (width obj) (tx * 8 + px))
                     (flip (v_flip obj) (height obj) (ty * 8 + py))
          = (let tile_index = tile_number obj * 1 + (ty * (width obj div 8) + tx)
             in if length (replicate 64 (0x11 :: byte)) < tile_index * 32 + 32
                then (if False then (255, 255, 255, 255) else (0, 0, 0, 0))
                else case cell_pixel (replicate 64 0x11) [(0, 0, 0), (255, 0, 0)] False
                            tile_index py px of
                       None \<Rightarrow> (if False then (255, 255, 255, 255) else (0, 0, 0, 0))
                     | Some c \<Rightarrow> c)"
    by blast
  have "getpixel img 0 0 = (255, 0, 0, 255)"
    using c[rule_format, of 0 0 0 0] by (simp add: obj_def flip_def cell_pixel_def Let_def)
  moreover have "getpixel img 8 0 = (0, 0, 0, 0)"
    using c[rule_format, of 0 1 0 0] by (simp add: obj_def flip_def Let_def)
  ultimately show ?thesis using r parse_wide_object by (auto simp: obj_def)
qed

text \<open>
  C7 as stated fails when \<open>show_transparent\<close> is on: with an empty tile buffer the only
  cell of an 8x8 object lies beyond the buffer, and its pixels are opaque white.
\<close>

theorem beyond_buffer_white_counterexample:
  "\<exists>obj img. parse_oam_attrs 0 0 0 = Inr obj \<and> width obj = 8 \<and> height obj = 8 \<and>
     render_sprite [] obj [] 4 True = Inr img \<and> getpixel img 0 0 = (255, 255, 255, 255)"
proof -
  define obj where "obj = \<lparr> y_coord = 0, rot_scaling = 0, double_size = 0, obj_disable = 0,
           obj_mode = 0, mosaic = 0, colors_palettes = 0, obj_shape = 0, x_coord = 0,
           rot_scaling_param = 0, h_flip = 0, v_flip = 0, obj_size = 0, tile_number = 0,
           priority = 0, palette_number = 0, width = 8, height = 8, obj_set = None,
           obj_index = None \<rparr>"
  have p: "parse_oam_attrs 0 0 0 = Inr obj"
    by (simp add: parse_oam_attrs_def dict_get_def SIZE_TABLE_def wrap_ds_coordinate_def
        Let_def obj_def)
  have "render_sprite [] obj [] 4 True = Inr (Image_new 8 8 (255, 255, 255, 255))"
    using render_sprite_no_tiles[of obj "[]" 4 True] by (simp add: obj_def background_def)
  then show ?thesis using p by (auto simp: obj_def)
qed

subsection \<open>The compositor\<close>

lemma py_min_Cons: "py_min (x # xs) = Inr (Min (set (x # xs)))"
  using Min.set_eq_fold[of x xs] by (simp add: py_min_def)

lemma py_max_Cons: "py_max (x # xs) = Inr (Max (set (x # xs)))"
  using Max.set_eq_fold[of x xs] by (simp add: py_max_def)

lemma py_min_ne: "xs \<noteq> [] \<Longrightarrow> py_min xs = Inr (Min (set xs))"
  using py_min_Cons by (cases xs) auto

lemma py_max_ne: "xs \<noteq> [] \<Longrightarrow> py_max xs = Inr (Max (set xs))"
  using py_max_Cons by (cases xs) auto

lemma paste_size [simp]:
  "im_w (paste canvas sprite box) = im_w canvas" "im_h (paste canvas sprite box) = im_h canvas"
  by (simp_all add: paste_def split: prod.splits)

lemma paste_wf [simp]: "wf_image (paste canvas sprite box)"
  by (auto simp: paste_def wf_image_def list_all_iff split: prod.splits)

lemma paste_pixel:
  assumes "cx < im_w canvas" "cy < im_h canvas"
  shows "getpixel (paste canvas sprite (bx, by)) cx cy =
           (if 0 \<le> int cx - bx \<and> int cx - bx < int (im_w sprite) \<and>
               0 \<le> int cy - by \<and> int cy - by < int (im_h sprite) \<and>
               alpha (getpixel sprite (nat (int cx - bx)) (nat (int cy - by))) = 255
            then getpixel sprite (nat (int cx - bx)) (nat (int cy - by))
            else getpixel canvas cx cy)"
  using assms by (simp add: paste_def getpixel_def Let_def)

lemma paint_object_disabled:
  "obj_disable obj \<noteq> 0 \<Longrightarrow>
   paint_object tile_data palettes mult show_transparent min_x min_y obj canvas = Inr canvas"
  by (simp add: paint_object_def)

lemma paint_object_enabled:
  assumes "palettes \<noteq> []" "obj_disable obj = 0"
  shows "\<exists>sprite. object_sprite tile_data palettes mult show_transparent obj = Inr sprite \<and>
           paint_object tile_data palettes mult show_transparent min_x min_y obj canvas
             = Inr (paste canvas sprite (x_coord obj - min_x, y_coord obj - min_y))"
proof -
  define k where "k = (if length palettes \<le> palette_number obj then 0 else palette_number obj)"
  have "k < length palettes" using assms(1) by (auto simp: k_def)
  then have g: "list_get palettes k = Inr (palettes ! k)" by (simp add: list_get_def)
  obtain sprite where s: "render_sprite tile_data obj (palettes ! k) mult show_transparent = Inr sprite"
    using render_sprite_spec[of tile_data obj "palettes ! k" mult show_transparent] by blast
  have "paint_object tile_data palettes mult show_transparent min_x min_y obj canvas
             = Inr (paste canvas sprite (x_coord obj - min_x, y_coord obj - min_y))"
    using assms(2) g s by (simp add: paint_object_def Let_def k_def[symmetric])
  then show ?thesis using s by (auto simp: object_sprite_def k_def)
qed

lemma paint_object_total:
  assumes "palettes \<noteq> []" "wf_image canvas"
  shows "\<exists>c. paint_object tile_data palettes mult show_transparent min_x min_y obj canvas = Inr c \<and>
           wf_image c \<and> im_w c = im_w canvas \<and> im_h c = im_h canvas"
proof (cases "obj_disable obj = 0")
  case True
  from paint_object_enabled[OF assms(1) True, of tile_data mult show_transparent min_x min_y canvas]
  show ?thesis by auto
next
  case False
  then show ?thesis using assms(2) by (simp add: paint_object_disabled)
qed

lemma paint_all_total:
  assumes "palettes \<noteq> []" "wf_image canvas"
  shows "\<exists>c. foldE (paint_object tile_data palettes mult show_transparent min_x min_y) objs canvas
              = Inr c \<and>
           wf_image c \<and> im_w c = im_w canvas \<and> im_h c = im_h canvas"
  using assms(2)
proof (induction objs arbitrary: canvas)
  case Nil
  then show ?case by simp
next
  case (Cons obj objs)
  from paint_object_total[OF assms(1) Cons.prems, of tile_data mult show_transparent min_x min_y obj]
  obtain c where c: "paint_object tile_data palettes mult show_transparent min_x min_y obj canvas
                       = Inr c" "wf_image c" "im_w c = im_w canvas" "im_h c = im_h canvas"
    by blast
  from Cons.IH[OF c(2)] show ?case using c by auto
qed

lemma paint_all_enabled_only:
  "foldE (paint_object tile_data palettes mult show_transparent min_x min_y) objs canvas
     = foldE (paint_object tile_data palettes mult show_transparent min_x min_y)
         (filter (\<lambda>obj. obj_disable obj = 0) objs) canvas"
  by (induction objs arbitrary: canvas)
    (auto simp: paint_object_disabled bindE_def split: sum.splits)

lemma paint_object_priority:
  "paint_object tile_data palettes mult show_transparent min_x min_y (obj\<lparr> priority := p \<rparr>)
     = paint_object tile_data palettes mult show_transparent min_x min_y obj"
  by (rule ext) (simp add: paint_object_def render_sprite_def)

lemma box_nonneg:
  fixes objects :: "sprite_obj list"
  assumes "objects \<noteq> []"
  shows "Min (x_coord ` set objects) \<le> Max ((\<lambda>obj. x_coord obj + int (width obj)) ` set objects)"
    and "Min (y_coord ` set objects) \<le> Max ((\<lambda>obj. y_coord obj + int (height obj)) ` set objects)"
proof -
  obtain obj where o: "obj \<in> set objects" using assms by (cases objects) auto
  have "Min (x_coord ` set objects) \<le> x_coord obj" using o by simp
  also have "\<dots> \<le> x_coord obj + int (width obj)" by simp
  also have "\<dots> \<le> Max ((\<lambda>obj. x_coord obj + int (width obj)) ` set objects)" using o by simp
  finally show "Min (x_coord ` set objects)
                  \<le> Max ((\<lambda>obj. x_coord obj + int (width obj)) ` set objects)" .
  have "Min (y_coord ` set objects) \<le> y_coord obj" using o by simp
  also have "\<dots> \<le> y_coord obj + int (height obj)" by simp
  also have "\<dots> \<le> Max ((\<lambda>obj. y_coord obj + int (height obj)) ` set objects)" using o by simp
  finally show "Min (y_coord ` set objects)
                  \<le> Max ((\<lambda>obj. y_coord obj + int (height obj)) ` set objects)" .
qed

lemma composite_unfold:
  assumes "objects \<noteq> []"
  shows "composite tile_data palettes mult show_transparent objects =
           foldE (paint_object tile_data palettes mult show_transparent
                    (Min (x_coord ` set objects)) (Min (y_coord ` set objects)))
             (rev objects)
             (Image_new
                (nat (Max ((\<lambda>obj. x_coord obj + int (width obj)) ` set objects)
                        - Min (x_coord ` set objects)))
                (nat (Max ((\<lambda>obj. y_coord obj + int (height obj)) ` set objects)
                        - Min (y_coord ` set objects)))
                (0, 0, 0, 0))"
proof -
  define min_x where "min_x = Min (x_coord ` set objects)"
  define min_y where "min_y = Min (y_coord ` set objects)"
  define max_x where "max_x = Max ((\<lambda>obj. x_coord obj + int (width obj)) ` set objects)"
  define max_y where "max_y = Max ((\<lambda>obj. y_coord obj + int (height obj)) ` set objects)"
  have b: "\<not> (max_x - min_x < 0 \<or> max_y - min_y < 0)"
    using box_nonneg[OF assms] by (simp add: min_x_def min_y_def max_x_def max_y_def)
  have m: "py_min (map x_coord objects) = Inr min_x" "py_min (map y_coord objects) = Inr min_y"
    "py_max (map (\<lambda>obj. x_coord obj + int (width obj)) objects) = Inr max_x"
    "py_max (map (\<lambda>obj. y_coord obj + int (height obj)) objects) = Inr max_y"
    using assms by (simp_all add: py_min_ne py_max_ne min_x_def min_y_def max_x_def max_y_def)
  show ?thesis
    unfolding composite_def m bindE_Inr Let_def min_x_def[symmetric] min_y_def[symmetric]
      max_x_def[symmetric] max_y_def[symmetric]
    using b by (simp only: if_False)
qed

lemma paint_all_priority:
  "foldE (paint_object tile_data palettes mult show_transparent min_x min_y)
     (map (\<lambda>obj. obj\<lparr> priority := f obj \<rparr>) objs) canvas
   = foldE (paint_object tile_data palettes mult show_transparent min_x min_y) objs canvas"
  by (induction objs arbitrary: canvas)
    (auto simp: paint_object_priority bindE_def split: sum.splits)

lemma composite_priority:
  "composite tile_data palettes mult show_transparent (map (\<lambda>obj. obj\<lparr> priority := f obj \<rparr>) objects)
     = composite tile_data palettes mult show_transparent objects"
  by (simp add: composite_def comp_def rev_map paint_all_priority cong: if_cong)

lemma parse_priority_bits:
  assumes "a2 mod 1024 = a2' mod 1024" "a2 div 4096 = a2' div 4096"
  shows "\<exists>obj. parse_oam_attrs a0 a1 a2 = Inr obj \<and>
           parse_oam_attrs a0 a1 a2' = Inr (obj\<lparr> priority := a2' div 1024 mod 4 \<rparr>)"
proof -
  obtain by_size w h where t: "SIZE_TABLE (drop_bit 14 a0 AND 0x3) = Some by_size"
      "by_size (drop_bit 14 a1 AND 0x3) = Some (w, h)"
    using size_table_lookup[OF mask3_less mask3_less] by blast
  have tn: "a2 AND 0x3FF = a2' AND 0x3FF"
    using and_mask_nat[of a2 10] and_mask_nat[of a2' 10] assms(1)
    by (simp add: mask_eq_exp_minus_1)
  have pn: "drop_bit 12 a2 AND 0xF = drop_bit 12 a2' AND 0xF"
    using shift_mask_nat[of 12 a2 4] shift_mask_nat[of 12 a2' 4] assms(2)
    by (simp add: mask_eq_exp_minus_1)
  have pr: "drop_bit 10 a2' AND 0x3 = a2' div 1024 mod 4"
    using shift_mask_nat[of 10 a2' 2] by (simp add: mask_eq_exp_minus_1)
  show ?thesis
    using t tn pn pr by (simp add: parse_oam_attrs_def dict_get_def Let_def split: prod.splits)
qed

lemma top_object_wins:
  fixes objects :: "sprite_obj list"
  assumes "objects = o0 # rest" "palettes \<noteq> []" "obj_disable o0 = 0"
    and "object_sprite tile_data palettes mult show_transparent o0 = Inr s0"
    and "sx < width o0" "sy < height o0" "alpha (getpixel s0 sx sy) = 255"
  shows "\<exists>canvas. composite tile_data palettes mult show_transparent objects = Inr canvas \<and>
           getpixel canvas (nat (x_coord o0 + int sx - Min (x_coord ` set objects)))
                           (nat (y_coord o0 + int sy - Min (y_coord ` set objects)))
             = getpixel s0 sx sy"
proof -
  define min_x where "min_x = Min (x_coord ` set objects)"
  define min_y where "min_y = Min (y_coord ` set objects)"
  define max_x where "max_x = Max ((\<lambda>obj. x_coord obj + int (width obj)) ` set objects)"
  define max_y where "max_y = Max ((\<lambda>obj. y_coord obj + int (height obj)) ` set objects)"
  define canvas0 where "canvas0 = Image_new (nat (max_x - min_x)) (nat (max_y - min_y)) (0, 0, 0, 0)"
  define paint where "paint = paint_object tile_data palettes mult show_transparent min_x min_y"
  have ne: "objects \<noteq> []" and mem: "o0 \<in> set objects" using assms(1) by simp_all
  have c: "composite tile_data palettes mult show_transparent objects
             = bindE (foldE paint (rev rest) canvas0) (paint o0)"
    using composite_unfold[OF ne, of tile_data palettes mult show_transparent]
    by (simp add: assms(1) foldE_snoc min_x_def min_y_def max_x_def max_y_def canvas0_def
        paint_def)
  have "wf_image canvas0" by (simp add: canvas0_def)
  from paint_all_total[OF assms(2) this, of tile_data mult show_transparent min_x min_y "rev rest"]
  obtain c1 where c1: "foldE paint (rev rest) canvas0 = Inr c1" "wf_image c1"
    "im_w c1 = nat (max_x - min_x)" "im_h c1 = nat (max_y - min_y)"
    by (auto simp: paint_def canvas0_def)
  from paint_object_enabled[OF assms(2,3), of tile_data mult show_transparent min_x min_y c1]
  have p: "paint o0 c1 = Inr (paste c1 s0 (x_coord o0 - min_x, y_coord o0 - min_y))"
    using assms(4) by (auto simp: paint_def)
  have size0: "im_w s0 = width o0" "im_h s0 = height o0"
    using render_sprite_size assms(4) unfolding object_sprite_def by blast+
  have lo: "min_x \<le> x_coord o0" "min_y \<le> y_coord o0"
    using mem by (simp_all add: min_x_def min_y_def)
  have hi: "x_coord o0 + int (width o0) \<le> max_x" "y_coord o0 + int (height o0) \<le> max_y"
    using mem by (simp_all add: max_x_def max_y_def)
  define cx where "cx = nat (x_coord o0 + int sx - min_x)"
  define cy where "cy = nat (y_coord o0 + int sy - min_y)"
  have cxy: "int cx = x_coord o0 + int sx - min_x" "int cy = y_coord o0 + int sy - min_y"
    using lo by (simp_all add: cx_def cy_def)
  have inb: "cx < im_w c1" "cy < im_h c1"
    using cxy hi assms(5,6) lo by (simp_all add: c1 cx_def cy_def)
  have rel: "int cx - (x_coord o0 - min_x) = int sx" "int cy - (y_coord o0 - min_y) = int sy"
    using cxy by simp_all
  have "getpixel (paste c1 s0 (x_coord o0 - min_x, y_coord o0 - min_y)) cx cy = getpixel s0 sx sy"
    unfolding paste_pixel[OF inb] rel using assms(5,6,7) size0 by simp
  then show ?thesis
    unfolding c c1(1) bindE_Inr p min_x_def[symmetric] min_y_def[symmetric]
      cx_def[symmetric] cy_def[symmetric]
    by simp
qed

text \<open>
  C1. Take any object sequence whose objects 0 and 1 are enabled, and a canvas location
  where the rendered sprites of both have an opaque pixel. The composited canvas has
  object 0's pixel there. Moreover the canvas does not depend on the priority fields:
  replacing the priority of every object by any other value gives the same result; and
  two attr2 words that agree outside bits 10-11 parse to objects that differ in the
  priority field only.
\<close>

theorem lower_index_wins_priority_ignored:
  "(2 \<le> length objects \<and> palettes \<noteq> [] \<and>
    obj_disable (objects ! 0) = 0 \<and> obj_disable (objects ! 1) = 0 \<and>
    object_sprite tile_data palettes mult show_transparent (objects ! 0) = Inr s0 \<and>
    object_sprite tile_data palettes mult show_transparent (objects ! 1) = Inr s1 \<and>
    sx0 < width (objects ! 0) \<and> sy0 < height (objects ! 0) \<and>
    sx1 < width (objects ! 1) \<and> sy1 < height (objects ! 1) \<and>
    x_coord (objects ! 0) + int sx0 = x_coord (objects ! 1) + int sx1 \<and>
    y_coord (objects ! 0) + int sy0 = y_coord (objects ! 1) + int sy1 \<and>
    alpha (getpixel s0 sx0 sy0) = 255 \<and> alpha (getpixel s1 sx1 sy1) = 255
    \<longrightarrow>
    (\<exists>canvas. composite tile_data palettes mult show_transparent objects = Inr canvas \<and>
       getpixel canvas (nat (x_coord (objects ! 0) + int sx0 - Min (x_coord ` set objects)))
                       (nat (y_coord (objects ! 0) + int sy0 - Min (y_coord ` set objects)))
         = getpixel s0 sx0 sy0)) \<and>
   composite tile_data palettes mult show_transparent
       (map (\<lambda>obj. obj\<lparr> priority := f obj \<rparr>) objects)
     = composite tile_data palettes mult show_transparent objects \<and>
   (a2 mod 1024 = a2' mod 1024 \<and> a2 div 4096 = a2' div 4096 \<longrightarrow>
      (\<exists>obj. parse_oam_attrs a0 a1 a2 = Inr obj \<and>
         parse_oam_attrs a0 a1 a2' = Inr (obj\<lparr> priority := a2' div 1024 mod 4 \<rparr>)))"
proof (intro conjI impI)
  assume h: "2 \<le> length objects \<and> palettes \<noteq> [] \<and>
    obj_disable (objects ! 0) = 0 \<and> obj_disable (objects ! 1) = 0 \<and>
    object_sprite tile_data palettes mult show_transparent (objects ! 0) = Inr s0 \<and>
    object_sprite tile_data palettes mult show_transparent (objects ! 1) = Inr s1 \<and>
    sx0 < width (objects ! 0) \<and> sy0 < height (objects ! 0) \<and>
    sx1 < width (objects ! 1) \<and> sy1 < height (objects ! 1) \<and>
    x_coord (objects ! 0) + int sx0 = x_coord (objects ! 1) + int sx1 \<and>
    y_coord (objects ! 0) + int sy0 = y_coord (objects ! 1) + int sy1 \<and>
    alpha (getpixel s0 sx0 sy0) = 255 \<and> alpha (getpixel s1 sx1 sy1) = 255"
  then obtain o0 rest where o: "objects = o0 # rest" by (cases objects) auto
  then have n: "objects ! 0 = o0" by simp
  from h have "palettes \<noteq> []" "obj_disable o0 = 0"
    "object_sprite tile_data palettes mult show_transparent o0 = Inr s0"
    "sx0 < width o0" "sy0 < height o0" "alpha (getpixel s0 sx0 sy0) = 255"
    unfolding n by simp_all
  from top_object_wins[OF o this]
  show "\<exists>canvas. composite tile_data palettes mult show_transparent objects = Inr canvas \<and>
       getpixel canvas (nat (x_coord (objects ! 0) + int sx0 - Min (x_coord ` set objects)))
                       (nat (y_coord (objects ! 0) + int sy0 - Min (y_coord ` set objects)))
         = getpixel s0 sx0 sy0"
    unfolding n .
next
  show "composite tile_data palettes mult show_transparent
       (map (\<lambda>obj. obj\<lparr> priority := f obj \<rparr>) objects)
     = composite tile_data palettes mult show_transparent objects"
    by (rule composite_priority)
next
  assume "a2 mod 1024 = a2' mod 1024 \<and> a2 div 4096 = a2' div 4096"
  then show "\<exists>obj. parse_oam_attrs a0 a1 a2 = Inr obj \<and>
         parse_oam_attrs a0 a1 a2' = Inr (obj\<lparr> priority := a2' div 1024 mod 4 \<rparr>)"
    using parse_priority_bits by blast
qed

theorem lower_index_wins_witness:
  "\<exists>o0 o1 canvas.
     parse_oam_attrs 0 0 0x0C00 = Inr o0 \<and> parse_oam_attrs 0 0 1 = Inr o1 \<and>
     priority o0 = 3 \<and> priority o1 = 0 \<and>
     composite (replicate 32 0x11 @ replicate 32 0x22) [[(0, 0, 0), (255, 0, 0), (0, 255, 0)]]
       1 False [o0, o1] = Inr canvas \<and>
     getpixel canvas 0 0 = (255, 0, 0, 255)"
proof -
  define tiles :: "byte list" where "tiles = replicate 32 0x11 @ replicate 32 0x22"
  define pal :: "color list" where "pal = [(0, 0, 0), (255, 0, 0), (0, 255, 0)]"
  define o0 where "o0 = \<lparr> y_coord = 0, rot_scaling = 0, double_size = 0, obj_disable = 0,
           obj_mode = 0, mosaic = 0, colors_palettes = 0, obj_shape = 0, x_coord = 0,
           rot_scaling_param = 0, h_flip = 0, v_flip = 0, obj_size = 0, tile_number = 0,
           priority = 3, palette_number = 0, width = 8, height = 8, obj_set = None,
           obj_index = None \<rparr>"
  define o1 where "o1 = \<lparr> y_coord = 0, rot_scaling = 0, double_size = 0, obj_disable = 0,
           obj_mode = 0, mosaic = 0, colors_palettes = 0, obj_shape = 0, x_coord = 0,
           rot_scaling_param = 0, h_flip = 0, v_flip = 0, obj_size = 0, tile_number = 1,
           priority = 0, palette_number = 0, width = 8, height = 8, obj_set = None,
           obj_index = None \<rparr>"
  have p0: "parse_oam_attrs 0 0 0x0C00 = Inr o0" and p1: "parse_oam_attrs 0 0 1 = Inr o1"
    by (simp_all add: parse_oam_attrs_def dict_get_def SIZE_TABLE_def wrap_ds_coordinate_def
        Let_def o0_def o1_def)
  from render_sprite_spec[of tiles o0 pal 1 False] obtain s0 where
    s0: "render_sprite tiles o0 pal 1 False = Inr s0"
    and c0: "\<forall>ty tx py px. ty < height o0 div 8 \<and> tx < width o0 div 8 \<and> py < 8 \<and> px < 8 \<longrightarrow>
        getpixel s0 (flip (h_flip o0) (width o0) (tx * 8 + px))
                    (flip (v_flip o0) (height o0) (ty * 8 + py))
          = (case cell_pixel tiles pal False
                    (tile_number o0 * 1 + (ty * (width o0 div 8) + tx)) py px of
               None \<Rightarrow> background False | Some c \<Rightarrow> c)"
    by blast
  from render_sprite_spec[of tiles o1 pal 1 False] obtain s1 where
    s1: "render_sprite tiles o1 pal 1 False = Inr s1"
    and c1: "\<forall>ty tx py px. ty < height o1 div 8 \<and> tx < width o1 div 8 \<and> py < 8 \<and> px < 8 \<longrightarrow>
        getpixel s1 (flip (h_flip o1) (width o1) (tx * 8 + px))
                    (flip (v_flip o1) (height o1) (ty * 8 + py))
          = (case cell_pixel tiles pal False
                    (tile_number o1 * 1 + (ty * (width o1 div 8) + tx)) py px of
               None \<Rightarrow> background False | Some c \<Rightarrow> c)"
    by blast
  have g0: "getpixel s0 0 0 = (255, 0, 0, 255)"
    using c0[rule_format, of 0 0 0 0]
    by (simp add: o0_def flip_def cell_pixel_def Let_def tiles_def pal_def nth_append)
  have g1: "getpixel s1 0 0 = (0, 255, 0, 255)"
    using c1[rule_format, of 0 0 0 0]
    by (simp add: o1_def flip_def cell_pixel_def Let_def tiles_def pal_def nth_append)
  have os: "object_sprite tiles [pal] 1 False o0 = Inr s0"
    "object_sprite tiles [pal] 1 False o1 = Inr s1"
    using s0 s1 by (simp_all add: object_sprite_def o0_def o1_def)
  have hyp: "2 \<le> length [o0, o1] \<and> [pal] \<noteq> [] \<and>
    obj_disable ([o0, o1] ! 0) = 0 \<and> obj_disable ([o0, o1] ! 1) = 0 \<and>
    object_sprite tiles [pal] 1 False ([o0, o1] ! 0) = Inr s0 \<and>
    object_sprite tiles [pal] 1 False ([o0, o1] ! 1) = Inr s1 \<and>
    0 < width ([o0, o1] ! 0) \<and> 0 < height ([o0, o1] ! 0) \<and>
    0 < width ([o0, o1] ! 1) \<and> 0 < height ([o0, o1] ! 1) \<and>
    x_coord ([o0, o1] ! 0) + int 0 = x_coord ([o0, o1] ! 1) + int 0 \<and>
    y_coord ([o0, o1] ! 0) + int 0 = y_coord ([o0, o1] ! 1) + int 0 \<and>
    alpha (getpixel s0 0 0) = 255 \<and> alpha (getpixel s1 0 0) = 255"
    using os g0 g1 by (simp add: alpha_def) (simp add: o0_def o1_def)
  from lower_index_wins_priority_ignored[where objects = "[o0, o1]" and palettes = "[pal]"
      and tile_data = tiles and mult = 1 and show_transparent = False and ?s0.0 = s0
      and ?s1.0 = s1 and ?sx0.0 = 0 and ?sy0.0 = 0 and ?sx1.0 = 0 and ?sy1.0 = 0,
      THEN conjunct1, rule_format, OF hyp]
  obtain canvas where
    c: "composite tiles [pal] 1 False [o0, o1] = Inr canvas"
    and g: "getpixel canvas (nat (x_coord ([o0, o1] ! 0) + int 0 - Min (x_coord ` set [o0, o1])))
                       (nat (y_coord ([o0, o1] ! 0) + int 0 - Min (y_coord ` set [o0, o1])))
         = getpixel s0 0 0"
    by blast
  have "getpixel canvas 0 0 = (255, 0, 0, 255)"
    using g g0 by (simp add: o0_def o1_def)
  then show ?thesis
    using p0 p1 c by (auto simp: o0_def o1_def tiles_def pal_def)
qed

text \<open>
  C8. For every non-empty object sequence, the canvas has the size of the bounding box
  of all the objects, disabled ones included, and every object is pasted at its offset
  from that box's corner; the content is what painting the enabled objects alone, in
  reversed order, leaves on that canvas: a disabled object writes no pixel.
\<close>

theorem disabled_objects_only_shape_the_box:
  "objects \<noteq> [] \<longrightarrow>
     composite tile_data palettes mult show_transparent objects =
       foldE (paint_object tile_data palettes mult show_transparent
                (Min (x_coord ` set objects)) (Min (y_coord ` set objects)))
         (rev (filter (\<lambda>obj. obj_disable obj = 0) objects))
         (Image_new
            (nat (Max ((\<lambda>obj. x_coord obj + int (width obj)) ` set objects)
                    - Min (x_coord ` set objects)))
            (nat (Max ((\<lambda>obj. y_coord obj + int (height obj)) ` set objects)
                    - Min (y_coord ` set objects)))
            (0, 0, 0, 0)) \<and>
     (palettes \<noteq> [] \<longrightarrow>
        (\<exists>canvas. composite tile_data palettes mult show_transparent objects = Inr canvas \<and>
           im_w canvas = nat (Max ((\<lambda>obj. x_coord obj + int (width obj)) ` set objects)
                               - Min (x_coord ` set objects)) \<and>
           im_h canvas = nat (Max ((\<lambda>obj. y_coord obj + int (height obj)) ` set objects)
                               - Min (y_coord ` set objects))))"
proof (intro impI conjI)
  assume ne: "objects \<noteq> []"
  show "composite tile_data palettes mult show_transparent objects =
       foldE (paint_object tile_data palettes mult show_transparent
                (Min (x_coord ` set objects)) (Min (y_coord ` set objects)))
         (rev (filter (\<lambda>obj. obj_disable obj = 0) objects))
         (Image_new
            (nat (Max ((\<lambda>obj. x_coord obj + int (width obj)) ` set objects)
                    - Min (x_coord ` set objects)))
            (nat (Max ((\<lambda>obj. y_coord obj + int (height obj)) ` set objects)
                    - Min (y_coord ` set objects)))
            (0, 0, 0, 0))"
    unfolding composite_unfold[OF ne] rev_filter
    by (rule paint_all_enabled_only)
next
  assume ne: "objects \<noteq> []" and pal: "palettes \<noteq> []"
  have "wf_image (Image_new
            (nat (Max ((\<lambda>obj. x_coord obj + int (width obj)) ` set objects)
                    - Min (x_coord ` set objects)))
            (nat (Max ((\<lambda>obj. y_coord obj + int (height obj)) ` set objects)
                    - Min (y_coord ` set objects)))
            (0, 0, 0, 0))"
    by simp
  from paint_all_total[OF pal this]
  show "\<exists>canvas. composite tile_data palettes mult show_transparent objects = Inr canvas \<and>
           im_w canvas = nat (Max ((\<lambda>obj. x_coord obj + int (width obj)) ` set objects)
                               - Min (x_coord ` set objects)) \<and>
           im_h canvas = nat (Max ((\<lambda>obj. y_coord obj + int (height obj)) ` set objects)
                               - Min (y_coord ` set objects))"
    unfolding composite_unfold[OF ne] by (simp del: foldE.simps) blast
qed


theorem disabled_objects_witness:
  "\<exists>o0 o1 canvas.
     parse_oam_attrs 0 0 0 = Inr o0 \<and> parse_oam_attrs 0x200 8 0 = Inr o1 \<and>
     obj_disable o0 = 0 \<and> obj_disable o1 = 1 \<and>
     composite (replicate 32 0x11) [[(0, 0, 0), (255, 0, 0)]] 1 False [o0, o1] = Inr canvas \<and>
     im_w canvas = 16 \<and> im_h canvas = 8 \<and>
     getpixel canvas 0 0 = (255, 0, 0, 255) \<and> getpixel canvas 8 0 = (0, 0, 0, 0)"
proof -
  define tiles :: "byte list" where "tiles = replicate 32 0x11"
  define pal :: "color list" where "pal = [(0, 0, 0), (255, 0, 0)]"
  define o0 where "o0 = \<lparr> y_coord = 0, rot_scaling = 0, double_size = 0, obj_disable = 0,
           obj_mode = 0, mosaic = 0, colors_palettes = 0, obj_shape = 0, x_coord = 0,
           rot_scaling_param = 0, h_flip = 0, v_flip = 0, obj_size = 0, tile_number = 0,
           priority = 0, palette_number = 0, width = 8, height = 8, obj_set = None,
           obj_index = None \<rparr>"
  define o1 where "o1 = \<lparr> y_coord = 0, rot_scaling = 0, double_size = 0, obj_disable = 1,
           obj_mode = 0, mosaic = 0, colors_palettes = 0, obj_shape = 0, x_coord = 8,
           rot_scaling_param = 0, h_flip = 0, v_flip = 0, obj_size = 0, tile_number = 0,
           priority = 0, palette_number = 0, width = 8, height = 8, obj_set = None,
           obj_index = None \<rparr>"
  have p0: "parse_oam_attrs 0 0 0 = Inr o0" and p1: "parse_oam_attrs 0x200 8 0 = Inr o1"
    by (simp_all add: parse_oam_attrs_def dict_get_def SIZE_TABLE_def wrap_ds_coordinate_def
        Let_def o0_def o1_def)
  have mn: "Min (x_coord ` set [o0, o1]) = 0" "Min (y_coord ` set [o0, o1]) = 0"
    "Max ((\<lambda>obj. x_coord obj + int (width obj)) ` set [o0, o1]) = 16"
    "Max ((\<lambda>obj. y_coord obj + int (height obj)) ` set [o0, o1]) = 8"
    by (simp_all add: o0_def o1_def)
  have en: "filter (\<lambda>obj. obj_disable obj = 0) [o0, o1] = [o0]"
    by (simp add: o0_def o1_def)
  have ne: "[o0, o1] \<noteq> []" and pne: "[pal] \<noteq> []" by simp_all
  have n16: "nat (16 - 0) = 16" "nat (8 - 0) = 8" by simp_all
  note inst = disabled_objects_only_shape_the_box[of "[o0, o1]" tiles "[pal]" 1 False,
      rule_format, OF ne, unfolded mn en n16 rev.simps append_Nil]
  have eq: "composite tiles [pal] 1 False [o0, o1] =
              foldE (paint_object tiles [pal] 1 False 0 0) [o0] (Image_new 16 8 (0, 0, 0, 0))"
    using inst by (rule conjunct1)
  from inst[THEN conjunct2, rule_format, OF pne]
  obtain canvas where c: "composite tiles [pal] 1 False [o0, o1] = Inr canvas"
    and sz: "im_w canvas = 16" "im_h canvas = 8" by blast
  from render_sprite_spec[of tiles o0 pal 1 False] obtain s0 where
    s0: "render_sprite tiles o0 pal 1 False = Inr s0"
    and d0: "im_w s0 = width o0" "im_h s0 = height o0"
    and c0: "\<forall>ty tx py px. ty < height o0 div 8 \<and> tx < width o0 div 8 \<and> py < 8 \<and> px < 8 \<longrightarrow>
        getpixel s0 (flip (h_flip o0) (width o0) (tx * 8 + px))
                    (flip (v_flip o0) (height o0) (ty * 8 + py))
          = (case cell_pixel tiles pal False
                    (tile_number o0 * 1 + (ty * (width o0 div 8) + tx)) py px of
               None \<Rightarrow> background False | Some c \<Rightarrow> c)"
    by blast
  have g0: "getpixel s0 0 0 = (255, 0, 0, 255)"
    using c0[rule_format, of 0 0 0 0]
    by (simp add: o0_def flip_def cell_pixel_def Let_def tiles_def pal_def)
  have "object_sprite tiles [pal] 1 False o0 = Inr s0"
    using s0 by (simp add: object_sprite_def o0_def)
  with paint_object_enabled[of "[pal]" o0 tiles 1 False 0 0 "Image_new 16 8 (0, 0, 0, 0)"]
  have "paint_object tiles [pal] 1 False 0 0 o0 (Image_new 16 8 (0, 0, 0, 0))
          = Inr (paste (Image_new 16 8 (0, 0, 0, 0)) s0 (0, 0))"
    by (simp add: o0_def)
  then have cv: "canvas = paste (Image_new 16 8 (0, 0, 0, 0)) s0 (0, 0)"
    using eq c by simp
  have a: "getpixel canvas 0 0 = (255, 0, 0, 255)"
    unfolding cv using g0 d0 by (simp add: paste_pixel alpha_def o0_def)
  have b: "getpixel canvas 8 0 = (0, 0, 0, 0)"
    unfolding cv using d0 by (simp add: paste_pixel o0_def)
  show ?thesis
    using p0 p1 c sz a b by (auto simp: o0_def o1_def tiles_def pal_def)
qed

lemma composite_all_disabled:
  assumes "objects \<noteq> []" "\<forall>obj \<in> set objects. obj_disable obj \<noteq> 0"
  shows "composite tile_data palettes mult show_transparent objects =
           Inr (Image_new
                  (nat (Max ((\<lambda>obj. x_coord obj + int (width obj)) ` set objects)
                          - Min (x_coord ` set objects)))
                  (nat (Max ((\<lambda>obj. y_coord obj + int (height obj)) ` set objects)
                          - Min (y_coord ` set objects)))
                  (0, 0, 0, 0))"
proof -
  have "filter (\<lambda>obj. obj_disable obj = 0) (rev objects) = []"
    using assms(2) by (simp add: filter_empty_conv)
  then show ?thesis
    unfolding composite_unfold[OF assms(1)]
    by (subst paint_all_enabled_only) simp
qed

text \<open>
  C9, as the code has it. The compositor's canvas starts fully transparent whatever the
  settings: for every non-empty object sequence, with \<open>show_transparent\<close> on or off,
  the result is what the loop over the reversed objects makes of the fully transparent
  canvas of the bounding box; when every object is disabled, so that nothing is
  composited, the result is that transparent canvas itself; and the parameter \<open>debug\<close>
  never changes the result. It is the image of a single sprite that starts opaque white
  when \<open>show_transparent\<close> is on and fully transparent otherwise: for every tile
  buffer the rendered sprite is that image with the pixels of the tile cells written
  over it, and with no tile data, so that no pixel is written, that image is returned.
\<close>

theorem canvas_transparent_sprite_by_mode:
  "(objects \<noteq> [] \<longrightarrow>
      composite tile_data palettes mult show_transparent objects =
        foldE (paint_object tile_data palettes mult show_transparent
                 (Min (x_coord ` set objects)) (Min (y_coord ` set objects)))
          (rev objects)
          (Image_new
             (nat (Max ((\<lambda>obj. x_coord obj + int (width obj)) ` set objects)
                     - Min (x_coord ` set objects)))
             (nat (Max ((\<lambda>obj. y_coord obj + int (height obj)) ` set objects)
                     - Min (y_coord ` set objects)))
             (0, 0, 0, 0))) \<and>
   (objects \<noteq> [] \<and> (\<forall>obj \<in> set objects. obj_disable obj \<noteq> 0) \<longrightarrow>
      composite tile_data palettes mult show_transparent objects =
        Inr (Image_new
               (nat (Max ((\<lambda>obj. x_coord obj + int (width obj)) ` set objects)
                       - Min (x_coord ` set objects)))
               (nat (Max ((\<lambda>obj. y_coord obj + int (height obj)) ` set objects)
                       - Min (y_coord ` set objects)))
               (0, 0, 0, 0))) \<and>
   reconstruct_portrait tile_data oam_data palette1_data palette2_data use_set debug
       show_transparent
     = reconstruct_portrait tile_data oam_data palette1_data palette2_data use_set (\<not> debug)
         show_transparent \<and>
   (\<exists>img. render_sprite tile_data obj palette mult show_transparent = Inr img \<and>
      writes (Image_new (width obj) (height obj)
                (if show_transparent then (255, 255, 255, 255) else (0, 0, 0, 0)))
        img
        (writes_of (\<lambda>ty. writes_of (\<lambda>tx. writes_of (\<lambda>py. writes_of
           (sprite_writes tile_data obj palette mult show_transparent ty tx py) [0..<8])
           [0..<8]) [0..<width obj div 8]) [0..<height obj div 8])) \<and>
   render_sprite [] obj palette mult show_transparent =
     Inr (Image_new (width obj) (height obj)
            (if show_transparent then (255, 255, 255, 255) else (0, 0, 0, 0)))"
proof (intro conjI impI)
  assume "objects \<noteq> []"
  then show "composite tile_data palettes mult show_transparent objects =
        foldE (paint_object tile_data palettes mult show_transparent
                 (Min (x_coord ` set objects)) (Min (y_coord ` set objects)))
          (rev objects)
          (Image_new
             (nat (Max ((\<lambda>obj. x_coord obj + int (width obj)) ` set objects)
                     - Min (x_coord ` set objects)))
             (nat (Max ((\<lambda>obj. y_coord obj + int (height obj)) ` set objects)
                     - Min (y_coord ` set objects)))
             (0, 0, 0, 0))"
    by (rule composite_unfold)
next
  assume "objects \<noteq> [] \<and> (\<forall>obj \<in> set objects. obj_disable obj \<noteq> 0)"
  then show "composite tile_data palettes mult show_transparent objects =
        Inr (Image_new
               (nat (Max ((\<lambda>obj. x_coord obj + int (width obj)) ` set objects)
                       - Min (x_coord ` set objects)))
               (nat (Max ((\<lambda>obj. y_coord obj + int (height obj)) ` set objects)
                       - Min (y_coord ` set objects)))
               (0, 0, 0, 0))"
    using composite_all_disabled[of objects tile_data palettes mult show_transparent] by blast
next
  show "reconstruct_portrait tile_data oam_data palette1_data palette2_data use_set debug
       show_transparent
     = reconstruct_portrait tile_data oam_data palette1_data palette2_data use_set (\<not> debug)
         show_transparent"
    by (simp add: reconstruct_portrait_def)
next
  show "\<exists>img. render_sprite tile_data obj palette mult show_transparent = Inr img \<and>
      writes (Image_new (width obj) (height obj)
                (if show_transparent then (255, 255, 255, 255) else (0, 0, 0, 0)))
        img
        (writes_of (\<lambda>ty. writes_of (\<lambda>tx. writes_of (\<lambda>py. writes_of
           (sprite_writes tile_data obj palette mult show_transparent ty tx py) [0..<8])
           [0..<8]) [0..<width obj div 8]) [0..<height obj div 8])"
    using render_sprite_writes[of tile_data obj palette mult show_transparent]
    unfolding background_def .
next
  show "render_sprite [] obj palette mult show_transparent =
     Inr (Image_new (width obj) (height obj)
            (if show_transparent then (255, 255, 255, 255) else (0, 0, 0, 0)))"
    using render_sprite_no_tiles[of obj palette mult show_transparent]
    unfolding background_def .
qed

theorem canvas_transparent_witness:
  "\<exists>en obj. parse_oam_attrs 0 0 0 = Inr en \<and> obj_disable en = 0 \<and>
     parse_oam_attrs 0x200 0 0 = Inr obj \<and> obj_disable obj = 1 \<and>
     composite (replicate 32 0x11) [[(0, 0, 0), (255, 0, 0)]] 4 True [en] =
       foldE (paint_object (replicate 32 0x11) [[(0, 0, 0), (255, 0, 0)]] 4 True 0 0) [en]
         (Image_new 8 8 (0, 0, 0, 0)) \<and>
     composite [] [[]] 4 True [obj] = Inr (Image_new 8 8 (0, 0, 0, 0)) \<and>
     render_sprite [] obj [] 4 True = Inr (Image_new 8 8 (255, 255, 255, 255)) \<and>
     render_sprite [] obj [] 4 False = Inr (Image_new 8 8 (0, 0, 0, 0))"
proof -
  define en where "en = \<lparr> y_coord = 0, rot_scaling = 0, double_size = 0, obj_disable = 0,
           obj_mode = 0, mosaic = 0, colors_palettes = 0, obj_shape = 0, x_coord = 0,
           rot_scaling_param = 0, h_flip = 0, v_flip = 0, obj_size = 0, tile_number = 0,
           priority = 0, palette_number = 0, width = 8, height = 8, obj_set = None,
           obj_index = None \<rparr>"
  define obj where "obj = \<lparr> y_coord = 0, rot_scaling = 0, double_size = 0, obj_disable = 1,
           obj_mode = 0, mosaic = 0, colors_palettes = 0, obj_shape = 0, x_coord = 0,
           rot_scaling_param = 0, h_flip = 0, v_flip = 0, obj_size = 0, tile_number = 0,
           priority = 0, palette_number = 0, width = 8, height = 8, obj_set = None,
           obj_index = None \<rparr>"
  have pe: "parse_oam_attrs 0 0 0 = Inr en" and p: "parse_oam_attrs 0x200 0 0 = Inr obj"
    by (simp_all add: parse_oam_attrs_def dict_get_def SIZE_TABLE_def wrap_ds_coordinate_def
        Let_def en_def obj_def)
  have ne: "[en] \<noteq> []" by simp
  have mn: "Min (x_coord ` set [en]) = 0" "Min (y_coord ` set [en]) = 0"
    "nat (Max ((\<lambda>obj. x_coord obj + int (width obj)) ` set [en]) - 0) = 8"
    "nat (Max ((\<lambda>obj. y_coord obj + int (height obj)) ` set [en]) - 0) = 8"
    by (simp_all add: en_def)
  have a: "composite (replicate 32 0x11) [[(0, 0, 0), (255, 0, 0)]] 4 True [en] =
       foldE (paint_object (replicate 32 0x11) [[(0, 0, 0), (255, 0, 0)]] 4 True 0 0) [en]
         (Image_new 8 8 (0, 0, 0, 0))"
    using canvas_transparent_sprite_by_mode[where objects = "[en]"
        and tile_data = "replicate 32 0x11" and palettes = "[[(0, 0, 0), (255, 0, 0)]]"
        and mult = 4 and show_transparent = True, THEN conjunct1, rule_format, OF ne]
    unfolding mn rev.simps append_Nil .
  have h: "[obj] \<noteq> [] \<and> (\<forall>ob \<in> set [obj]. obj_disable ob \<noteq> 0)" by (simp add: obj_def)
  have b: "composite [] [[]] 4 True [obj] = Inr (Image_new 8 8 (0, 0, 0, 0))"
    using canvas_transparent_sprite_by_mode[where objects = "[obj]" and tile_data = "[]"
        and palettes = "[[]]" and mult = 4 and show_transparent = True,
        THEN conjunct2, THEN conjunct1, rule_format, OF h]
    by (simp add: obj_def)
  have c: "render_sprite [] obj [] 4 True = Inr (Image_new 8 8 (255, 255, 255, 255))"
    using canvas_transparent_sprite_by_mode[where obj = obj and palette = "[]" and mult = 4
        and show_transparent = True, THEN conjunct2, THEN conjunct2, THEN conjunct2,
        THEN conjunct2]
    by (simp add: obj_def)
  have d: "render_sprite [] obj [] 4 False = Inr (Image_new 8 8 (0, 0, 0, 0))"
    using canvas_transparent_sprite_by_mode[where obj = obj and palette = "[]" and mult = 4
        and show_transparent = False, THEN conjunct2, THEN conjunct2, THEN conjunct2,
        THEN conjunct2]
    by (simp add: obj_def)
  show ?thesis
    using pe p a b c d by (auto simp: en_def obj_def)
qed

text \<open>
  C9 as stated fails: with \<open>debug\<close> and \<open>show_transparent\<close> both on, the document
  that holds one disabled 8x8 object gives back its canvas as it was initialised, and
  that canvas is fully transparent, not opaque white.
\<close>

theorem debug_canvas_not_white_counterexample:
  "reconstruct_portrait [] [0, 0, 0, 0, 4, 0, 0, 0, 1, 0, 0x00, 0x02, 0, 0, 0, 0, 0, 0] [] []
     1 True True = Inr (Image_new 8 8 (0, 0, 0, 0)) \<and>
   getpixel (Image_new 8 8 (0, 0, 0, 0)) 0 0 \<noteq> (255, 255, 255, 255)"
proof -
  define obj where "obj = \<lparr> y_coord = 0, rot_scaling = 0, double_size = 0, obj_disable = 1,
           obj_mode = 0, mosaic = 0, colors_palettes = 0, obj_shape = 0, x_coord = 0,
           rot_scaling_param = 0, h_flip = 0, v_flip = 0, obj_size = 0, tile_number = 0,
           priority = 0, palette_number = 0, width = 8, height = 8, obj_set = Some 1,
           obj_index = Some 0 \<rparr>"
  define header where "header = \<lparr> total_size = 0, byte_2_3 = 0, multiplier = 4,
           set2_offset_adjust = 0, set1_count = 1 \<rparr>"
  have p: "parse_custom_oam_format [0, 0, 0, 0, 4, 0, 0, 0, 1, 0, 0x00, 0x02, 0, 0, 0, 0, 0, 0]
             = Inr (header, [obj], [])"
    by (simp add: parse_custom_oam_format_def py_slice_def parse_set.simps parse_oam_attrs_def
        dict_get_def SIZE_TABLE_def wrap_ds_coordinate_def Let_def obj_def header_def)
  have "composite [] [[], []] 4 True [obj] = Inr (Image_new 8 8 (0, 0, 0, 0))"
    using composite_all_disabled[of "[obj]" "[]" "[[], []]" 4 True] by (simp add: obj_def)
  then show ?thesis
    by (simp add: reconstruct_portrait_def load_ds_palette_Nil p header_def)
qed

end
